theory Spec2Isabelle
  imports Main "HOL-Library.Word"
begin

unbundle bit_operations_syntax

section \<open>Machine types, errors and the operating system\<close>

type_synonym byte = "8 word"
type_synonym uint32 = "32 word"
type_synonym uint64 = "64 word"

text \<open>
  Every place where the code calls the operating system (or the mmap library) and checks
  the returned error is a \<open>syscall\<close>. The environment \<open>io\<close> says which of these calls
  fail; a failing call returns \<open>IOError\<close> tagged with the call.
\<close>

datatype syscall =
    OpenStoreFile | StatStoreFile | OpenIndexFile | StatIndexFile | TruncateIndexFile
  | MapIndexFile | WriteStoreLen | WriteStorePayload | FlushStore | ReadStore
  | CloseStoreFile | SyncMmap | SyncIndexFile | ShrinkIndexFile | CloseIndexFile

type_synonym io = "syscall \<Rightarrow> bool"

text \<open>
  \<open>EOF\<close> is Go's \<open>io.EOF\<close>. \<open>Panic\<close> stands for a Go run-time panic (slice bounds out
  of range, integer division by zero): it is not an error value of the source, and a
  function that panics never reaches its own \<open>err != nil\<close> tests.
\<close>

datatype error = EOF | IOError syscall | MarshalError | UnmarshalError | Panic

text \<open>
  A file is named by \<open>path.Join(dir, fmt.Sprintf("%d%s", baseOffset, ext))\<close>; the name is
  kept as the triple of directory, base offset and suffix it is built from.
\<close>

datatype ext = StoreExt | IndexExt

type_synonym path = "string \<times> uint64 \<times> ext"

text \<open>
  The world outside the process: the contents of the files by name, and the list of open
  file descriptors (one entry per successful open that has not been closed).
\<close>

record world =
  files :: "path \<rightharpoonup> byte list"
  handles :: "path list"

text \<open>\<open>os.OpenFile(name, O_RDWR|O_CREATE..., 0644)\<close>: creates the file when absent.\<close>

definition OpenFile :: "io \<Rightarrow> syscall \<Rightarrow> path \<Rightarrow> world \<Rightarrow> error option \<times> world" where
  "OpenFile io sc name w =
     (if io sc then (Some (IOError sc), w)
      else (None, w\<lparr>files := (case files w name of None \<Rightarrow> (files w)(name \<mapsto> [])
                                  | Some _ \<Rightarrow> files w),
                    handles := name # handles w\<rparr>))"

text \<open>\<open>truncate(2)\<close>: cut the file to \<open>n\<close> bytes or extend it with zero bytes.\<close>

definition resize :: "nat \<Rightarrow> byte list \<Rightarrow> byte list" where
  "resize n bs = take n bs @ replicate (n - length bs) 0"

text \<open>Go's slice expression \<open>b[lo:hi]\<close>, which panics out of range.\<close>

definition slice :: "byte list \<Rightarrow> nat \<Rightarrow> nat \<Rightarrow> byte list option" where
  "slice b lo hi = (if lo \<le> hi \<and> hi \<le> length b then Some (take (hi - lo) (drop lo b)) else None)"

text \<open>Writing the bytes \<open>v\<close> over \<open>b[lo:hi]\<close> (\<open>v\<close> has \<open>hi - lo\<close> bytes).\<close>

definition put_slice :: "byte list \<Rightarrow> nat \<Rightarrow> nat \<Rightarrow> byte list \<Rightarrow> byte list option" where
  "put_slice b lo hi v = (if lo \<le> hi \<and> hi \<le> length b then Some (take lo b @ v @ drop hi b) else None)"

section \<open>Byte order\<close>

text \<open>
  Modelled from the spec: \<open>enc\<close>, the byte order of the index entries and of the store's
  length prefix, is declared in store.go, which is not among the sources. The spec fixes
  it as big-endian with widths 4 and 8; these are \<open>binary.BigEndian\<close>'s functions.
\<close>

definition PutUint32 :: "uint32 \<Rightarrow> byte list" where
  "PutUint32 v = [ucast (drop_bit 24 v), ucast (drop_bit 16 v), ucast (drop_bit 8 v), ucast v]"

fun Uint32 :: "byte list \<Rightarrow> uint32" where
  "Uint32 (b0 # b1 # b2 # b3 # _) =
     ucast b3 OR push_bit 8 (ucast b2) OR push_bit 16 (ucast b1) OR push_bit 24 (ucast b0)"
| "Uint32 _ = 0"

definition PutUint64 :: "uint64 \<Rightarrow> byte list" where
  "PutUint64 v = [ucast (drop_bit 56 v), ucast (drop_bit 48 v), ucast (drop_bit 40 v),
                  ucast (drop_bit 32 v), ucast (drop_bit 24 v), ucast (drop_bit 16 v),
                  ucast (drop_bit 8 v), ucast v]"

fun Uint64 :: "byte list \<Rightarrow> uint64" where
  "Uint64 (b0 # b1 # b2 # b3 # b4 # b5 # b6 # b7 # _) =
     ucast b7 OR push_bit 8 (ucast b6) OR push_bit 16 (ucast b5) OR push_bit 24 (ucast b4)
     OR push_bit 32 (ucast b3) OR push_bit 40 (ucast b2) OR push_bit 48 (ucast b1)
     OR push_bit 56 (ucast b0)"
| "Uint64 _ = 0"

section \<open>Records, configuration and the record codec\<close>

text \<open>
  Modelled from the spec: \<open>api.Record\<close> is generated code that is not among the sources. The
  spec describes it as an opaque byte payload plus the logical offset field that the
  segment stamps.
\<close>

record Record =
  Value :: "byte list"
  Offset :: uint64

text \<open>
  \<open>proto.Marshal\<close> and \<open>proto.Unmarshal\<close> belong to an external library and are parameters
  of the model. \<open>Unmarshal\<close> fills the record it is given and returns an error or nil, so
  it yields the record as it stands after the call together with the error.
\<close>

record codec =
  Marshal :: "Record \<Rightarrow> error + byte list"
  Unmarshal :: "byte list \<Rightarrow> Record \<times> error option"

text \<open>
  Modelled from the spec: \<open>Config\<close> is declared in config.go, which is not among the
  sources. The spec gives the two limits the segment reads, both \<open>uint64\<close>; the source
  reaches them as \<open>c.Segment.MaxStoreBytes\<close> and \<open>c.Segment.MaxIndexBytes\<close>.
\<close>

record SegmentConfig =
  MaxStoreBytes :: uint64
  MaxIndexBytes :: uint64

record Config =
  Segment :: SegmentConfig

section \<open>The store\<close>

text \<open>
  Modelled from the spec: store.go is not among the sources. The store is the spec's
  append-only file of \<open>[8-byte big-endian length][payload]\<close> entries behind a buffered
  writer, with a running size counter. \<open>store_file\<close> holds the bytes that have reached
  the open file and \<open>store_buf\<close> the bytes still in the writer; the world's copy of the
  file is brought up to date when the store is closed.
\<close>

record store =
  store_name :: path
  store_file :: "byte list"
  store_buf :: "byte list"
  store_size :: uint64

definition lenWidth :: nat where
  "lenWidth = 8"

text \<open>
  Modelled from the spec: \<open>newStore\<close> takes the opened file; the size counter starts at
  the file's current size, which is read with a stat call that can fail.
\<close>

definition newStore :: "io \<Rightarrow> path \<Rightarrow> world \<Rightarrow> error + store" where
  "newStore io f w =
     (if io StatStoreFile then Inl (IOError StatStoreFile)
      else case files w f of
        None \<Rightarrow> Inl (IOError StatStoreFile)
      | Some content \<Rightarrow>
          Inr \<lparr>store_name = f, store_file = content, store_buf = [],
               store_size = of_nat (length content)\<rparr>)"

text \<open>
  Modelled from the spec: \<open>Append(payload) -> (bytesWritten, position, error)\<close> records the
  current size as the position, writes the length prefix and then the payload, and
  advances the size counter by \<open>8 + len(payload)\<close>. Either write can fail.
\<close>

definition store_Append :: "io \<Rightarrow> byte list \<Rightarrow> store \<Rightarrow> (uint64 \<times> uint64 \<times> error option) \<times> store" where
  "store_Append io p st =
     (let pos = store_size st in
      if io WriteStoreLen then ((0, 0, Some (IOError WriteStoreLen)), st)
      else
        let st1 = st\<lparr>store_buf := store_buf st @ PutUint64 (of_nat (length p))\<rparr> in
        if io WriteStorePayload then ((0, 0, Some (IOError WriteStorePayload)), st1)
        else
          let n = of_nat (length p + lenWidth) in
          ((n, pos, None),
           st1\<lparr>store_buf := store_buf st1 @ p, store_size := store_size st + n\<rparr>))"

definition flush :: "store \<Rightarrow> store" where
  "flush st = st\<lparr>store_file := store_file st @ store_buf st, store_buf := []\<rparr>"

text \<open>
  Modelled from the spec: \<open>Read(position) -> (payload, error)\<close> first flushes the writer,
  reads the 8-byte length prefix at the position and then that many payload bytes; it
  fails with an I/O error when either read would pass the end of the file.
\<close>

definition store_Read :: "io \<Rightarrow> uint64 \<Rightarrow> store \<Rightarrow> (error + byte list) \<times> store" where
  "store_Read io pos st =
     (if io FlushStore then (Inl (IOError FlushStore), st)
      else
        let st1 = flush st; f = store_file st1 in
        if io ReadStore \<or> length f < unat pos + lenWidth then (Inl (IOError ReadStore), st1)
        else
          let n = unat (Uint64 (take lenWidth (drop (unat pos) f))) in
          if length f < unat pos + lenWidth + n then (Inl (IOError ReadStore), st1)
          else (Inr (take n (drop (unat pos + lenWidth) f)), st1))"

text \<open>
  Modelled from the spec: \<open>Close()\<close> flushes the buffered writes and then closes the file,
  which releases the descriptor.
\<close>

definition store_Close :: "io \<Rightarrow> store \<Rightarrow> world \<Rightarrow> error option \<times> store \<times> world" where
  "store_Close io st w =
     (if io FlushStore then (Some (IOError FlushStore), st, w)
      else
        let st1 = flush st;
            w1 = w\<lparr>files := (files w)(store_name st \<mapsto> store_file st1),
                   handles := remove1 (store_name st) (handles w)\<rparr>
        in (if io CloseStoreFile then Some (IOError CloseStoreFile) else None, st1, w1))"

section \<open>The index (index.go)\<close>

definition offWidth :: uint64 where
  "offWidth = 4"

definition posWidth :: uint64 where
  "posWidth = 8"

definition entWidth :: uint64 where
  "entWidth = offWidth + posWidth"

record index =
  index_file :: path
  index_mmap :: "byte list"
  index_size :: uint64

text \<open>
  \<open>newIndex\<close>: stat the file for the bytes already written, truncate it to the configured
  maximum (a negative \<open>int64\<close> length is refused by the system) and map it. On every
  failure the function returns without closing anything.
\<close>

definition newIndex :: "io \<Rightarrow> path \<Rightarrow> Config \<Rightarrow> world \<Rightarrow> (error + index) \<times> world" where
  "newIndex io f c w =
     (if io StatIndexFile then (Inl (IOError StatIndexFile), w)
      else case files w f of
        None \<Rightarrow> (Inl (IOError StatIndexFile), w)
      | Some content \<Rightarrow>
          let sz = of_nat (length content) in
          if io TruncateIndexFile \<or> sint (MaxIndexBytes (Segment c)) < 0
          then (Inl (IOError TruncateIndexFile), w)
          else
            let mapped = resize (unat (MaxIndexBytes (Segment c))) content;
                w1 = w\<lparr>files := (files w)(f \<mapsto> mapped)\<rparr>
            in if io MapIndexFile then (Inl (IOError MapIndexFile), w1)
               else (Inr \<lparr>index_file = f, index_mmap = mapped, index_size = sz\<rparr>, w1))"

text \<open>
  \<open>index.Close\<close>: sync the mapping, sync the file, truncate the file to \<open>size\<close>, close it.
  Each step returns early on its error.
\<close>

definition index_Close :: "io \<Rightarrow> index \<Rightarrow> world \<Rightarrow> error option \<times> world" where
  "index_Close io i w =
     (if io SyncMmap then (Some (IOError SyncMmap), w)
      else
        let w1 = w\<lparr>files := (files w)(index_file i \<mapsto> index_mmap i)\<rparr> in
        if io SyncIndexFile then (Some (IOError SyncIndexFile), w1)
        else if io ShrinkIndexFile \<or> sint (index_size i) < 0
        then (Some (IOError ShrinkIndexFile), w1)
        else
          let w2 = w1\<lparr>files := (files w1)(index_file i \<mapsto>
                                   resize (unat (index_size i)) (index_mmap i)),
                      handles := remove1 (index_file i) (handles w1)\<rparr>
          in (if io CloseIndexFile then Some (IOError CloseIndexFile) else None, w2))"

text \<open>
  \<open>index.Read(in int64)\<close>. The argument is kept as its 64-bit pattern: \<open>in == -1\<close> is a
  comparison of patterns and \<open>uint32(in)\<close> keeps the low 32 bits.
\<close>

definition index_Read :: "index \<Rightarrow> uint64 \<Rightarrow> (uint32 \<times> uint64) \<times> error option" where
  "index_Read i in' =
     (if index_size i = 0 then ((0, 0), Some EOF)
      else
        let out = (if in' = - 1 then (ucast (index_size i div entWidth - 1) :: uint32)
                   else ucast in');
            bytePos = (ucast out :: uint64) * entWidth
        in if index_size i < bytePos + entWidth then ((0, 0), Some EOF)
           else
             case (slice (index_mmap i) (unat bytePos) (unat (bytePos + offWidth)),
                   slice (index_mmap i) (unat (bytePos + offWidth)) (unat (bytePos + entWidth))) of
               (Some ob, Some pb) \<Rightarrow> ((Uint32 ob, Uint64 pb), None)
             | _ \<Rightarrow> ((0, 0), Some Panic))"

text \<open>\<open>index.Write(off uint32, pos uint64)\<close>.\<close>

definition index_Write :: "uint32 \<Rightarrow> uint64 \<Rightarrow> index \<Rightarrow> error option \<times> index" where
  "index_Write off pos i =
     (if (of_nat (length (index_mmap i)) :: uint64) < index_size i + entWidth then (Some EOF, i)
      else
        case put_slice (index_mmap i) (unat (index_size i)) (unat (index_size i + offWidth))
               (PutUint32 off) of
          None \<Rightarrow> (Some Panic, i)
        | Some m1 \<Rightarrow>
            (case put_slice m1 (unat (index_size i + offWidth)) (unat (index_size i + entWidth))
                    (PutUint64 pos) of
               None \<Rightarrow> (Some Panic, i\<lparr>index_mmap := m1\<rparr>)
             | Some m2 \<Rightarrow> (None, i\<lparr>index_mmap := m2, index_size := index_size i + entWidth\<rparr>)))"

section \<open>The segment (segment.go)\<close>

record segment =
  store :: store
  index :: index
  baseOffset :: uint64
  nextOffset :: uint64
  config :: Config

text \<open>
  \<open>newSegment(dir, baseOffset, c)\<close>. Every failure returns the error at once; nothing
  that was opened before is closed. A panic inside \<open>index.Read\<close> is not an error value
  and leaves the function.
\<close>

definition newSegment :: "io \<Rightarrow> string \<Rightarrow> uint64 \<Rightarrow> Config \<Rightarrow> world \<Rightarrow> (error + segment) \<times> world" where
  "newSegment io dir base c w =
     (case OpenFile io OpenStoreFile (dir, base, StoreExt) w of
        (Some err, w1) \<Rightarrow> (Inl err, w1)
      | (None, w1) \<Rightarrow>
         (case newStore io (dir, base, StoreExt) w1 of
            Inl err \<Rightarrow> (Inl err, w1)
          | Inr st \<Rightarrow>
             (case OpenFile io OpenIndexFile (dir, base, IndexExt) w1 of
                (Some err, w2) \<Rightarrow> (Inl err, w2)
              | (None, w2) \<Rightarrow>
                 (case newIndex io (dir, base, IndexExt) c w2 of
                    (Inl err, w3) \<Rightarrow> (Inl err, w3)
                  | (Inr idx, w3) \<Rightarrow>
                     (case index_Read idx (- 1) of
                        (_, Some Panic) \<Rightarrow> (Inl Panic, w3)
                      | (_, Some err) \<Rightarrow>
                          (Inr \<lparr>store = st, index = idx, baseOffset = base,
                                nextOffset = base, config = c\<rparr>, w3)
                      | ((off, _), None) \<Rightarrow>
                          (Inr \<lparr>store = st, index = idx, baseOffset = base,
                                nextOffset = base + ucast off + 1, config = c\<rparr>, w3))))))"

text \<open>
  \<open>segment.Append(record)\<close> returns the pair \<open>(offset, err)\<close>; the record is passed by
  pointer, so the record as the caller sees it afterwards is returned too.
\<close>

definition segment_Append ::
  "codec \<Rightarrow> io \<Rightarrow> Record \<Rightarrow> segment \<Rightarrow> (uint64 \<times> error option) \<times> Record \<times> segment" where
  "segment_Append cd io record s =
     (let cur = nextOffset s;
          record1 = record\<lparr>Offset := cur\<rparr>
      in case Marshal cd record1 of
           Inl err \<Rightarrow> ((0, Some err), record1, s)
         | Inr p \<Rightarrow>
            (case store_Append io p (store s) of
               ((_, _, Some err), st1) \<Rightarrow> ((0, Some err), record1, s\<lparr>store := st1\<rparr>)
             | ((_, pos, None), st1) \<Rightarrow>
                (case index_Write (ucast (nextOffset s - baseOffset s)) pos (index s) of
                   (Some err, i1) \<Rightarrow> ((0, Some err), record1, s\<lparr>store := st1, index := i1\<rparr>)
                 | (None, i1) \<Rightarrow>
                     ((cur, None), record1,
                      s\<lparr>store := st1, index := i1, nextOffset := nextOffset s + 1\<rparr>))))"

text \<open>
  \<open>segment.Read(off)\<close> returns the pair \<open>(record, err)\<close>: \<open>(nil, err)\<close> when the index or
  the store fails, and the freshly allocated record together with \<open>Unmarshal\<close>'s error
  otherwise.
\<close>

definition segment_Read ::
  "codec \<Rightarrow> io \<Rightarrow> uint64 \<Rightarrow> segment \<Rightarrow> (Record option \<times> error option) \<times> segment" where
  "segment_Read cd io off s =
     (case index_Read (index s) (off - baseOffset s) of
        (_, Some err) \<Rightarrow> ((None, Some err), s)
      | ((_, pos), None) \<Rightarrow>
         (case store_Read io pos (store s) of
            (Inl err, st1) \<Rightarrow> ((None, Some err), s\<lparr>store := st1\<rparr>)
          | (Inr p, st1) \<Rightarrow>
              (case Unmarshal cd p of
                 (record, err) \<Rightarrow> ((Some record, err), s\<lparr>store := st1\<rparr>))))"

definition IsMaxed :: "segment \<Rightarrow> bool" where
  "IsMaxed s \<longleftrightarrow>
     store_size (store s) \<ge> MaxStoreBytes (Segment (config s)) \<or>
     index_size (index s) \<ge> MaxIndexBytes (Segment (config s))"

text \<open>\<open>segment.Close\<close>: the index first; an error of the index close is returned at once.\<close>

definition segment_Close :: "io \<Rightarrow> segment \<Rightarrow> world \<Rightarrow> error option \<times> segment \<times> world" where
  "segment_Close io s w =
     (case index_Close io (index s) w of
        (Some err, w1) \<Rightarrow> (Some err, s, w1)
      | (None, w1) \<Rightarrow>
         (case store_Close io (store s) w1 of
            (Some err, st1, w2) \<Rightarrow> (Some err, s\<lparr>store := st1\<rparr>, w2)
          | (None, st1, w2) \<Rightarrow> (None, s\<lparr>store := st1\<rparr>, w2)))"

text \<open>
  \<open>nearestMultiple(j, k uint64)\<close>. Go panics on an integer division by zero. The test
  \<open>j >= 0\<close> and the second branch are kept as the source writes them.
\<close>

definition nearestMultiple :: "uint64 \<Rightarrow> uint64 \<Rightarrow> error + uint64" where
  "nearestMultiple j k =
     (if k = 0 then Inl Panic
      else if j \<ge> 0 then Inr ((j div k) * k)
      else Inr (((j - k + 1) div k) * k))"

section \<open>Runs of calls\<close>

text \<open>
  A caller that appends one record after the other, each call under its own environment;
  the run collects the pair every call returns.
\<close>

fun segment_Appends ::
  "codec \<Rightarrow> (io \<times> Record) list \<Rightarrow> segment \<Rightarrow> (uint64 \<times> error option) list \<times> segment" where
  "segment_Appends cd [] s = ([], s)"
| "segment_Appends cd ((io, r) # irs) s =
     (case segment_Append cd io r s of
        (res, _, s1) \<Rightarrow>
          (case segment_Appends cd irs s1 of (ress, s2) \<Rightarrow> (res # ress, s2)))"

text \<open>The offsets returned by the calls of a run that succeeded.\<close>

definition returned_offsets :: "(uint64 \<times> error option) list \<Rightarrow> uint64 list" where
  "returned_offsets ress = map fst (filter (\<lambda>res. snd res = None) ress)"

section \<open>What a segment holds\<close>

text \<open>
  The bytes on disk that correspond to a list of marshalled records \<open>ps\<close>, appended in
  this order: each record is framed by its length in the store, and entry \<open>k\<close> of the
  index carries \<open>k\<close> and the position of frame \<open>k\<close>.
\<close>

definition frame :: "byte list \<Rightarrow> byte list" where
  "frame p = PutUint64 (of_nat (length p)) @ p"

definition pos_of :: "byte list list \<Rightarrow> nat \<Rightarrow> nat" where
  "pos_of ps k = length (concat (map frame (take k ps)))"

definition entry :: "byte list list \<Rightarrow> nat \<Rightarrow> byte list" where
  "entry ps k = PutUint32 (of_nat k) @ PutUint64 (of_nat (pos_of ps k))"

definition index_bytes :: "byte list list \<Rightarrow> byte list" where
  "index_bytes ps = concat (map (entry ps) [0..<length ps])"

text \<open>
  \<open>holds s ps\<close>: the segment \<open>s\<close> stores exactly the marshalled records \<open>ps\<close>. The
  mapping has the configured length, which \<open>newIndex\<close> only accepts below \<open>2 ^ 63\<close>.
\<close>

definition holds :: "segment \<Rightarrow> byte list list \<Rightarrow> bool" where
  "holds s ps \<longleftrightarrow>
     store_file (store s) @ store_buf (store s) = concat (map frame ps) \<and>
     unat (store_size (store s)) = length (concat (map frame ps)) \<and>
     unat (index_size (index s)) = 12 * length ps \<and>
     12 * length ps \<le> length (index_mmap (index s)) \<and>
     length (index_mmap (index s)) = unat (MaxIndexBytes (Segment (config s))) \<and>
     length (index_mmap (index s)) < 2 ^ 63 \<and>
     take (12 * length ps) (index_mmap (index s)) = index_bytes ps \<and>
     nextOffset s = baseOffset s + of_nat (length ps)"

text \<open>
  The contract the segment needs from the record codec: what \<open>Marshal\<close> produces,
  \<open>Unmarshal\<close> reads back as the same record, and a marshalled record stays below the
  2 GiB limit of the encoding.
\<close>

definition codec_ok :: "codec \<Rightarrow> bool" where
  "codec_ok cd \<longleftrightarrow>
     (\<forall>r p. Marshal cd r = Inr p \<longrightarrow> length p < 2 ^ 31 \<and> Unmarshal cd p = (r, None))"

text \<open>A directory is fresh for a base offset when neither file exists or both are empty.\<close>

definition fresh :: "world \<Rightarrow> string \<Rightarrow> uint64 \<Rightarrow> bool" where
  "fresh w dir base \<longleftrightarrow>
     (files w (dir, base, StoreExt) = None \<or> files w (dir, base, StoreExt) = Some []) \<and>
     (files w (dir, base, IndexExt) = None \<or> files w (dir, base, IndexExt) = Some [])"

text \<open>The bytes of a file, empty when the file does not exist.\<close>

definition content_of :: "world \<Rightarrow> path \<Rightarrow> byte list" where
  "content_of w p = (case files w p of None \<Rightarrow> [] | Some b \<Rightarrow> b)"

text \<open>
  \<open>dense dir s n\<close>: what every segment built by the code keeps true of its index,
  whatever the store holds. The index has \<open>n\<close> entries inside the mapping, entry \<open>k\<close>
  carries the relative offset \<open>k\<close> (its low 32 bits), \<open>nextOffset\<close> is \<open>baseOffset + n\<close>
  and the two files are the ones of \<open>dir\<close> and \<open>baseOffset\<close>.
\<close>

definition dense :: "string \<Rightarrow> segment \<Rightarrow> nat \<Rightarrow> bool" where
  "dense dir s n \<longleftrightarrow>
     unat (index_size (index s)) = 12 * n \<and>
     12 * n \<le> length (index_mmap (index s)) \<and>
     length (index_mmap (index s)) < 2 ^ 63 \<and>
     (\<forall>k<n. take 4 (drop (12 * k) (index_mmap (index s))) = PutUint32 (of_nat k)) \<and>
     nextOffset s = baseOffset s + of_nat n \<and>
     store_name (store s) = (dir, baseOffset s, StoreExt) \<and>
     index_file (index s) = (dir, baseOffset s, IndexExt)"

text \<open>
  The segments that the code produces in a directory: \<open>newSegment\<close> on a fresh
  directory, then any Append and Read, whatever they return, and a Close without error
  followed by \<open>newSegment\<close> over the same directory and base offset, as long as the
  closed index holds at most \<open>2 ^ 32\<close> entries.
\<close>

inductive reachable :: "string \<Rightarrow> segment \<Rightarrow> bool" for dir :: string where
  created: "fresh w dir base \<Longrightarrow> newSegment io dir base c w = (Inr s, w') \<Longrightarrow> reachable dir s"
| appended: "reachable dir s \<Longrightarrow> segment_Append cd io r s = (res, r', s') \<Longrightarrow> reachable dir s'"
| was_read: "reachable dir s \<Longrightarrow> segment_Read cd io off s = (res, s') \<Longrightarrow> reachable dir s'"
| reopened: "reachable dir s \<Longrightarrow> unat (index_size (index s)) \<le> 12 * 2 ^ 32 \<Longrightarrow>
             segment_Close io s w = (None, s1, w1) \<Longrightarrow>
             newSegment io2 dir (baseOffset s) c w1 = (Inr s2, w2) \<Longrightarrow> reachable dir s2"

section \<open>Concrete inputs\<close>

definition no_faults :: io where
  "no_faults = (\<lambda>_. False)"

definition fail_at :: "syscall \<Rightarrow> io" where
  "fail_at sc = (\<lambda>c. c = sc)"

definition empty_world :: world where
  "empty_world = \<lparr>files = Map.empty, handles = []\<rparr>"

definition demo_config :: Config where
  "demo_config = \<lparr>Segment = \<lparr>MaxStoreBytes = 1024, MaxIndexBytes = 24\<rparr>\<rparr>"

text \<open>The segment that \<open>newSegment\<close> builds in an empty directory for base offset 5.\<close>

definition demo_segment :: segment where
  "demo_segment =
     \<lparr>store = \<lparr>store_name = (''log'', 5, StoreExt), store_file = [], store_buf = [],
                store_size = 0\<rparr>,
      index = \<lparr>index_file = (''log'', 5, IndexExt), index_mmap = replicate 24 0,
                index_size = 0\<rparr>,
      baseOffset = 5, nextOffset = 5, config = demo_config\<rparr>"

definition demo_record :: Record where
  "demo_record = \<lparr>Value = [1, 2, 3], Offset = 77\<rparr>"

text \<open>
  A codec to run the model with: the offset as 8 big-endian bytes, then the payload.
  A second one refuses every record.
\<close>

definition plain_codec :: codec where
  "plain_codec =
     \<lparr>Marshal = (\<lambda>r. if length (Value r) + 8 < 2 ^ 31
                       then Inr (PutUint64 (Offset r) @ Value r) else Inl MarshalError),
      Unmarshal = (\<lambda>b. if length b < 8 then (\<lparr>Value = [], Offset = 0\<rparr>, Some UnmarshalError)
                        else (\<lparr>Value = drop 8 b, Offset = Uint64 (take 8 b)\<rparr>, None))\<rparr>"

definition refusing_codec :: codec where
  "refusing_codec =
     \<lparr>Marshal = (\<lambda>r. Inl MarshalError),
      Unmarshal = (\<lambda>b. (\<lparr>Value = [], Offset = 0\<rparr>, Some UnmarshalError))\<rparr>"

text \<open>The world after \<open>newSegment\<close> has built \<open>demo_segment\<close> in an empty directory.\<close>

definition demo_world :: world where
  "demo_world =
     \<lparr>files = [(''log'', 5, StoreExt) \<mapsto> [], (''log'', 5, IndexExt) \<mapsto> replicate 24 0],
      handles = [(''log'', 5, IndexExt), (''log'', 5, StoreExt)]\<rparr>"

text \<open>\<open>demo_segment\<close> after one record has been appended.\<close>

definition demo_segment1 :: segment where
  "demo_segment1 = snd (snd (segment_Append plain_codec no_faults demo_record demo_segment))"

text \<open>The segment that \<open>newSegment\<close> builds for the largest base offset, \<open>2 ^ 64 - 1\<close>.\<close>

definition edge_segment :: segment where
  "edge_segment =
     \<lparr>store = \<lparr>store_name = (''log'', 18446744073709551615, StoreExt), store_file = [],
                store_buf = [], store_size = 0\<rparr>,
      index = \<lparr>index_file = (''log'', 18446744073709551615, IndexExt),
                index_mmap = replicate 24 0, index_size = 0\<rparr>,
      baseOffset = 18446744073709551615, nextOffset = 18446744073709551615,
      config = demo_config\<rparr>"

text \<open>\<open>demo_segment1\<close> after a second record has been appended.\<close>

definition demo_record2 :: Record where
  "demo_record2 = \<lparr>Value = [9, 8], Offset = 0\<rparr>"

definition demo_segment2 :: segment where
  "demo_segment2 = snd (snd (segment_Append plain_codec no_faults demo_record2 demo_segment1))"

text \<open>
  The world after \<open>demo_segment2\<close> has been closed, and the segment that \<open>newSegment\<close>
  builds from it for the same directory and base offset.
\<close>

definition demo_closed_world :: world where
  "demo_closed_world = snd (snd (segment_Close no_faults demo_segment2 demo_world))"

definition demo_reopened :: segment where
  "demo_reopened = projr (fst (newSegment no_faults ''log'' 5 demo_config demo_closed_world))"

text \<open>
  A segment with more than \<open>2 ^ 32\<close> entries: the index is given room for \<open>2 ^ 32 + 1\<close>
  entries (\<open>12 * (2 ^ 32 + 1)\<close> bytes), and a fresh segment for base offset 5 takes a
  run of \<open>2 ^ 32\<close> Appends, the first one of \<open>first_record\<close>, and then one more Append.
  The segment is then closed, and \<open>newSegment\<close> is called again on what the close left.
\<close>

definition big_config :: Config where
  "big_config = \<lparr>Segment = \<lparr>MaxStoreBytes = 1024, MaxIndexBytes = 51539607564\<rparr>\<rparr>"

definition first_record :: Record where
  "first_record = \<lparr>Value = [7], Offset = 0\<rparr>"

definition big_run :: "(io \<times> Record) list" where
  "big_run = (no_faults, first_record) # replicate 4294967295 (no_faults, demo_record)"

definition big_segment0 :: segment where
  "big_segment0 = projr (fst (newSegment no_faults ''log'' 5 big_config empty_world))"

definition big_segment :: segment where
  "big_segment = snd (segment_Appends plain_codec big_run big_segment0)"

definition big_segment1 :: segment where
  "big_segment1 = snd (snd (segment_Append plain_codec no_faults demo_record big_segment))"

definition big_world :: world where
  "big_world = snd (newSegment no_faults ''log'' 5 big_config empty_world)"

definition big_closed_world :: world where
  "big_closed_world = snd (snd (segment_Close no_faults big_segment1 big_world))"

definition big_reopened :: segment where
  "big_reopened = projr (fst (newSegment no_faults ''log'' 5 big_config big_closed_world))"

section \<open>Bytes and words\<close>

lemma length_PutUint32 [simp]: "length (PutUint32 v) = 4"
  by (simp add: PutUint32_def)

lemma length_PutUint64 [simp]: "length (PutUint64 v) = 8"
  by (simp add: PutUint64_def)

lemma bit_byte_shift:
  "n < LENGTH('a::len) \<Longrightarrow>
   bit (push_bit k (ucast (ucast (drop_bit k (w::'a word)) :: byte) :: 'a word)) n
     \<longleftrightarrow> k \<le> n \<and> n < k + 8 \<and> bit w n"
  by (auto simp: bit_simps)

lemma bit_byte_low:
  "n < LENGTH('a::len) \<Longrightarrow>
   bit (ucast (ucast (w::'a word) :: byte) :: 'a word) n \<longleftrightarrow> n < 8 \<and> bit w n"
  by (auto simp: bit_simps)

lemma Uint32_PutUint32 [simp]: "Uint32 (PutUint32 w @ bs) = w"
  unfolding PutUint32_def
  apply simp
  apply (rule bit_word_eqI)
  apply (simp add: bit_or_iff bit_byte_shift bit_byte_low)
  apply arith
  done

lemma Uint64_PutUint64 [simp]: "Uint64 (PutUint64 w @ bs) = w"
  unfolding PutUint64_def
  apply simp
  apply (rule bit_word_eqI)
  apply (simp add: bit_or_iff bit_byte_shift bit_byte_low)
  apply arith
  done

lemma unat_of_nat64: "n < 2 ^ 64 \<Longrightarrow> unat (of_nat n :: uint64) = n"
  by (simp add: unat_of_nat)

lemma unat_plus_small:
  "unat (x::uint64) + n < 2 ^ 64 \<Longrightarrow> unat (x + of_nat n) = unat x + n"
  by (simp add: unat_word_ariths unat_of_nat)

section \<open>The index\<close>

lemma index_Write_ok:
  assumes room: "unat (index_size i) + 12 \<le> length (index_mmap i)"
      and len: "length (index_mmap i) < 2 ^ 63"
  shows "index_Write off pos i =
           (None, i\<lparr>index_mmap := take (unat (index_size i)) (index_mmap i) @ PutUint32 off
                        @ PutUint64 pos @ drop (unat (index_size i) + 12) (index_mmap i),
                    index_size := index_size i + 12\<rparr>)"
proof -
  let ?sz = "unat (index_size i)" and ?m = "index_mmap i"
  have b: "?sz + 12 < 2 ^ 64" using room len by simp
  have u4: "unat (index_size i + 4) = ?sz + 4"
    using unat_plus_small[of "index_size i" 4] b by simp
  have u12: "unat (index_size i + 12) = ?sz + 12"
    using unat_plus_small[of "index_size i" 12] b by simp
  have ul: "unat (of_nat (length ?m) :: uint64) = length ?m"
    using len by (simp add: unat_of_nat64)
  have chk: "\<not> (of_nat (length ?m) :: uint64) < index_size i + 12"
    using room by (simp add: word_less_nat_alt u12 ul)
  show ?thesis
    using room chk
    by (simp add: index_Write_def put_slice_def entWidth_def offWidth_def posWidth_def
        u4 u12 add.commute)
qed

lemma index_Write_full:
  assumes full: "length (index_mmap i) < unat (index_size i) + 12"
      and sz: "unat (index_size i) \<le> length (index_mmap i)"
      and len: "length (index_mmap i) < 2 ^ 63"
  shows "index_Write off pos i = (Some EOF, i)"
proof -
  let ?sz = "unat (index_size i)" and ?m = "index_mmap i"
  have b: "?sz + 12 < 2 ^ 64" using sz len by simp
  have u12: "unat (index_size i + 12) = ?sz + 12"
    using unat_plus_small[of "index_size i" 12] b by simp
  have ul: "unat (of_nat (length ?m) :: uint64) = length ?m"
    using len by (simp add: unat_of_nat64)
  have chk: "(of_nat (length ?m) :: uint64) < index_size i + 12"
    using full by (simp add: word_less_nat_alt u12 ul)
  then show ?thesis
    by (simp add: index_Write_def entWidth_def offWidth_def posWidth_def)
qed

section \<open>nearestMultiple\<close>

lemma unat_floor: "unat ((j div k) * k :: uint64) = (unat j div unat k) * unat k"
proof -
  have "(unat j div unat k) * unat k \<le> unat j" by simp
  also have "\<dots> < 2 ^ 64" using unsigned_less[of j] by simp
  finally have "(unat j div unat k) * unat k < 2 ^ LENGTH(64)" by simp
  then show ?thesis
    by (simp add: unat_mult_lem[THEN iffD1] unat_div)
qed

text \<open>
  Claim C9. For all 64-bit unsigned \<open>j\<close> and \<open>k\<close> with \<open>k > 0\<close>, \<open>nearestMultiple j k\<close>
  returns \<open>(j / k) * k\<close>, which is a multiple of \<open>k\<close>, is at most \<open>j\<close>, and is at least
  every multiple of \<open>k\<close> that is at most \<open>j\<close>. The test \<open>j >= 0\<close> holds for every unsigned
  \<open>j\<close>, so the other branch is never taken.
\<close>

theorem nearestMultiple_rounds_down:
  assumes "k > 0"
  shows "0 \<le> j \<and>
         (\<exists>r. nearestMultiple j k = Inr r \<and> r = (j div k) * k \<and> r \<le> j \<and>
              unat k dvd unat r \<and>
              (\<forall>m. unat k dvd m \<and> m \<le> unat j \<longrightarrow> m \<le> unat r))"
proof -
  from assms have k0: "k \<noteq> 0" by auto
  then have uk: "0 < unat k" by (simp add: unat_gt_0)
  let ?r = "(j div k) * k"
  have ur: "unat ?r = (unat j div unat k) * unat k" by (rule unat_floor)
  have le: "?r \<le> j" by (simp add: word_le_nat_alt ur)
  have mx: "m \<le> unat ?r" if "unat k dvd m" "m \<le> unat j" for m
  proof -
    from that(1) obtain q where q: "m = unat k * q" by (auto simp: dvd_def)
    with that(2) uk have "q \<le> unat j div unat k"
      by (simp add: less_eq_div_iff_mult_less_eq mult.commute)
    then show ?thesis unfolding ur q by (simp add: mult.commute)
  qed
  have dv: "unat k dvd unat ?r" unfolding ur by simp
  show ?thesis using k0 le mx dv by (simp add: nearestMultiple_def)
qed

theorem nearestMultiple_rounds_down_witness:
  "(0::uint64) < 10 \<and> nearestMultiple 47 10 = Inr 40"
  using nearestMultiple_rounds_down [of 10 47] by simp

section \<open>Append: the offset counter and the stamped record\<close>

text \<open>
  Claim C3. Whenever \<open>segment.Append\<close> returns an error (from marshalling, from the store
  or from the index), it returns offset 0 and \<open>nextOffset\<close> is what it was. When it
  returns no error, it returns the old \<open>nextOffset\<close>, the record was marshalled, the
  store append and the index write both succeeded, and \<open>nextOffset\<close> is one more.
\<close>

theorem Append_failure_keeps_nextOffset:
  assumes "segment_Append cd io r s = ((off, e), r', s')"
  shows "(e \<noteq> None \<longrightarrow> off = 0 \<and> nextOffset s' = nextOffset s) \<and>
         (e = None \<longrightarrow> off = nextOffset s \<and> nextOffset s' = nextOffset s + 1 \<and>
            (\<exists>p n pos st1 i1. Marshal cd (r\<lparr>Offset := nextOffset s\<rparr>) = Inr p \<and>
                store_Append io p (store s) = ((n, pos, None), st1) \<and>
                index_Write (ucast (nextOffset s - baseOffset s)) pos (index s) = (None, i1)))"
  using assms
  by (auto simp: segment_Append_def Let_def split: sum.splits prod.splits option.splits)

theorem Append_failure_keeps_nextOffset_witness:
  "segment_Append plain_codec (fail_at WriteStorePayload) demo_record demo_segment =
     ((0, Some (IOError WriteStorePayload)), demo_record\<lparr>Offset := 5\<rparr>,
      demo_segment\<lparr>store := (store demo_segment)\<lparr>store_buf := PutUint64 11\<rparr>\<rparr>) \<and>
   nextOffset (demo_segment\<lparr>store := (store demo_segment)\<lparr>store_buf := PutUint64 11\<rparr>\<rparr>) =
     nextOffset demo_segment"
proof -
  have run: "segment_Append plain_codec (fail_at WriteStorePayload) demo_record demo_segment =
     ((0, Some (IOError WriteStorePayload)), demo_record\<lparr>Offset := 5\<rparr>,
      demo_segment\<lparr>store := (store demo_segment)\<lparr>store_buf := PutUint64 11\<rparr>\<rparr>)"
    by (simp add: segment_Append_def store_Append_def plain_codec_def fail_at_def
        demo_record_def demo_segment_def lenWidth_def)
  from Append_failure_keeps_nextOffset [OF run] run show ?thesis by simp
qed

text \<open>
  Claim C10. \<open>segment.Append\<close> writes the current \<open>nextOffset\<close> into the caller's record
  before anything else, whatever the call returns afterwards; in particular, when
  marshalling the stamped record fails, the call returns that error, the segment is
  unchanged and the caller's record carries the offset that was never committed.
\<close>

theorem Append_stamps_record:
  "fst (snd (segment_Append cd io r s)) = r\<lparr>Offset := nextOffset s\<rparr> \<and>
   (\<forall>e. Marshal cd (r\<lparr>Offset := nextOffset s\<rparr>) = Inl e \<longrightarrow>
        segment_Append cd io r s = ((0, Some e), r\<lparr>Offset := nextOffset s\<rparr>, s))"
  by (auto simp: segment_Append_def Let_def split: sum.splits prod.splits option.splits)

theorem Append_stamps_record_witness:
  "segment_Append refusing_codec no_faults demo_record demo_segment =
     ((0, Some MarshalError), demo_record\<lparr>Offset := 5\<rparr>, demo_segment)"
  using Append_stamps_record [of refusing_codec no_faults demo_record demo_segment]
  by (simp add: refusing_codec_def demo_segment_def)

section \<open>Running the model on the concrete inputs\<close>

lemmas run_defs =
  segment_Append_def segment_Read_def store_Append_def store_Read_def flush_def
  index_Write_def index_Read_def put_slice_def slice_def
  lenWidth_def entWidth_def offWidth_def posWidth_def Let_def
  plain_codec_def no_faults_def fail_at_def demo_record_def PutUint32_def PutUint64_def

lemmas open_defs =
  newSegment_def OpenFile_def newStore_def newIndex_def index_Read_def
  no_faults_def fail_at_def empty_world_def demo_config_def resize_def Let_def

lemma newSegment_demo:
  "newSegment no_faults ''log'' 5 demo_config empty_world = (Inr demo_segment, demo_world)"
  by (simp add: open_defs demo_segment_def demo_world_def)

lemma newSegment_edge:
  "fst (newSegment no_faults ''log'' 18446744073709551615 demo_config empty_world) =
     Inr edge_segment"
  by (simp add: open_defs edge_segment_def)

section \<open>Consecutive offsets\<close>

lemma Append_step:
  "segment_Append cd io r s = (res, r', s') \<Longrightarrow>
   baseOffset s' = baseOffset s \<and>
   (snd res = None \<and> fst res = nextOffset s \<and> nextOffset s' = nextOffset s + 1 \<or>
    snd res \<noteq> None \<and> fst res = 0 \<and> nextOffset s' = nextOffset s)"
  by (auto simp: segment_Append_def Let_def split: sum.splits prod.splits option.splits)

lemma upt_shift: "map f [0..<Suc m] = f 0 # map (\<lambda>i. f (Suc i)) [0..<m]"
  by (simp add: upt_conv_Cons map_Suc_upt[symmetric] del: upt_Suc)

lemma Appends_offsets:
  "segment_Appends cd irs s = (ress, s') \<Longrightarrow>
   returned_offsets ress =
     map (\<lambda>i. nextOffset s + of_nat i) [0..<length (returned_offsets ress)] \<and>
   nextOffset s' = nextOffset s + of_nat (length (returned_offsets ress)) \<and>
   baseOffset s' = baseOffset s"
proof (induction irs arbitrary: s ress s')
  case Nil
  then show ?case by (simp add: returned_offsets_def)
next
  case (Cons ir irs)
  obtain io r where ir: "ir = (io, r)" by (cases ir)
  obtain res r' s1 where a: "segment_Append cd io r s = (res, r', s1)"
    by (cases "segment_Append cd io r s") auto
  obtain ress1 s2 where b: "segment_Appends cd irs s1 = (ress1, s2)"
    by (cases "segment_Appends cd irs s1") auto
  from Cons.prems ir a b have eq: "ress = res # ress1" "s' = s2" by auto
  note ih = Cons.IH[OF b]
  note st = Append_step[OF a]
  show ?case
  proof (cases "snd res = None")
    case True
    with st have f: "fst res = nextOffset s" "nextOffset s1 = nextOffset s + 1" by auto
    let ?m = "length (returned_offsets ress1)"
    have ro: "returned_offsets ress = nextOffset s # returned_offsets ress1"
      using True f by (simp add: eq returned_offsets_def)
    have sh: "nextOffset s1 + of_nat i = nextOffset s + of_nat (Suc i)" for i
      using f by (simp add: ac_simps)
    have "returned_offsets ress1 = map (\<lambda>i. nextOffset s + of_nat (Suc i)) [0..<?m]"
      using ih unfolding sh by blast
    then have "returned_offsets ress = map (\<lambda>i. nextOffset s + of_nat i) [0..<Suc ?m]"
      unfolding ro upt_shift by simp
    moreover have "nextOffset s' = nextOffset s + of_nat (Suc ?m)"
      using ih eq unfolding sh by blast
    ultimately show ?thesis using ih st eq ro by simp
  next
    case False
    with st have f: "nextOffset s1 = nextOffset s" by auto
    have ro: "returned_offsets ress = returned_offsets ress1"
      using False by (simp add: eq returned_offsets_def)
    show ?thesis using ih st eq f unfolding ro by simp
  qed
qed

lemma offsets_increasing:
  assumes "unat (x::uint64) + m \<le> 2 ^ 64"
  shows "sorted_wrt (<) (map (\<lambda>i. x + of_nat i) [0..<m])"
proof -
  have "x + of_nat i < x + of_nat j" if "i < j" "j < m" for i j
  proof -
    have "unat (x + of_nat i) = unat x + i" "unat (x + of_nat j) = unat x + j"
      using that assms by (simp_all add: unat_plus_small)
    then show ?thesis using that by (simp add: word_less_nat_alt)
  qed
  then show ?thesis by (simp add: sorted_wrt_iff_nth_less)
qed

section \<open>Close\<close>

lemma index_Close_handles:
  "index_Close io i w = (e, w1) \<Longrightarrow>
   handles w1 = handles w \<or> handles w1 = remove1 (index_file i) (handles w)"
  by (auto simp: index_Close_def Let_def split: if_splits)

text \<open>
  Claim C7, as stated, fails: when the index close fails (here its first step, the sync
  of the mapping), \<open>segment.Close\<close> returns that error at once. The store close, which
  would have succeeded, is not attempted: the store's file descriptor is still open.
\<close>

theorem Close_leaves_store_open:
  "fst (index_Close (fail_at SyncMmap) (index demo_segment) demo_world)
     = Some (IOError SyncMmap) \<and>
   fst (store_Close (fail_at SyncMmap) (store demo_segment) demo_world) = None \<and>
   fst (segment_Close (fail_at SyncMmap) demo_segment demo_world) = Some (IOError SyncMmap) \<and>
   store_name (store demo_segment) \<in>
     set (handles (snd (snd (segment_Close (fail_at SyncMmap) demo_segment demo_world))))"
  by (simp add: segment_Close_def index_Close_def store_Close_def fail_at_def
      demo_segment_def demo_world_def flush_def)

text \<open>
  Claim C7, amended. \<open>segment.Close\<close> closes the index first. If the index close fails,
  Close returns that error and does nothing else: the segment and its store are
  untouched and the store's descriptor stays open. If the index close succeeds, Close
  closes the store in the resulting world and returns the store close's error, or nil.
\<close>

theorem Close_index_first_fail_fast:
  assumes ic: "index_Close io (index s) w = (ei, w1)"
      and sc: "segment_Close io s w = (e, s', w')"
  shows "(ei \<noteq> None \<longrightarrow> e = ei \<and> s' = s \<and> w' = w1 \<and>
            (store_name (store s) \<noteq> index_file (index s) \<longrightarrow>
               store_name (store s) \<in> set (handles w) \<longrightarrow>
               store_name (store s) \<in> set (handles w'))) \<and>
         (ei = None \<longrightarrow> (e, store s', w') = store_Close io (store s) w1 \<and> index s' = index s)"
proof -
  have keep: "store_name (store s) \<in> set (handles w1)"
    if "store_name (store s) \<noteq> index_file (index s)" "store_name (store s) \<in> set (handles w)"
    using index_Close_handles[OF ic] that by auto
  show ?thesis
    using ic sc keep
    by (auto simp: segment_Close_def split: option.splits prod.splits)
qed

theorem Close_index_first_fail_fast_witness:
  "segment_Close (fail_at SyncMmap) demo_segment demo_world =
     (Some (IOError SyncMmap), demo_segment, demo_world)"
proof -
  have ic: "index_Close (fail_at SyncMmap) (index demo_segment) demo_world =
              (Some (IOError SyncMmap), demo_world)"
    by (simp add: index_Close_def fail_at_def)
  obtain e s' w' where sc: "segment_Close (fail_at SyncMmap) demo_segment demo_world = (e, s', w')"
    by (cases "segment_Close (fail_at SyncMmap) demo_segment demo_world") auto
  from Close_index_first_fail_fast[OF ic sc] sc show ?thesis by simp
qed

section \<open>Failed construction\<close>

text \<open>
  Claim C8, as stated, fails: when mapping the index file fails, \<open>newSegment\<close> returns
  the error while the store file it opened before is still open.
\<close>

theorem newSegment_leaks_store_handle:
  "fst (newSegment (fail_at MapIndexFile) ''log'' 5 demo_config empty_world)
     = Inl (IOError MapIndexFile) \<and>
   (''log'', 5, StoreExt) \<in>
     set (handles (snd (newSegment (fail_at MapIndexFile) ''log'' 5 demo_config empty_world)))"
  by (simp add: open_defs)

text \<open>
  Claim C8, amended. A failed \<open>newSegment\<close> returns only the error and closes nothing:
  the descriptors open afterwards are those open before plus every file the call opened
  before the failure. After a failed open of the store file that is nothing; after a
  failed store creation or a failed open of the index file it is the store file; after a
  failed index creation (stat, truncate or mmap) or a panic in the first index read it is
  the store file and the index file.
\<close>

theorem newSegment_failure_releases_nothing:
  assumes "newSegment io dir base c w = (Inl err, w')"
  shows "(err = IOError OpenStoreFile \<and> handles w' = handles w) \<or>
         (err \<in> {IOError StatStoreFile, IOError OpenIndexFile} \<and>
            handles w' = (dir, base, StoreExt) # handles w) \<or>
         (err \<in> {IOError StatIndexFile, IOError TruncateIndexFile, IOError MapIndexFile, Panic} \<and>
            handles w' = (dir, base, IndexExt) # (dir, base, StoreExt) # handles w)"
  using assms
  by (auto simp: newSegment_def OpenFile_def newStore_def newIndex_def Let_def
      split: if_splits option.splits sum.splits prod.splits error.splits)

theorem newSegment_failure_releases_nothing_witness:
  "newSegment (fail_at MapIndexFile) ''log'' 5 demo_config empty_world
     = (Inl (IOError MapIndexFile), demo_world) \<and>
   handles demo_world = (''log'', 5, IndexExt) # (''log'', 5, StoreExt) # handles empty_world"
proof -
  have run: "newSegment (fail_at MapIndexFile) ''log'' 5 demo_config empty_world
               = (Inl (IOError MapIndexFile), demo_world)"
    by (simp add: open_defs demo_world_def)
  from newSegment_failure_releases_nothing[OF run] run show ?thesis by simp
qed

section \<open>Reading an index entry\<close>

lemma unat_ucast32: "unat (ucast (w::uint64) :: uint32) = unat w mod 2 ^ 32"
  by (simp add: unsigned_ucast_eq take_bit_eq_mod)

lemma unat_ucast64: "unat (ucast (w::uint32) :: uint64) = unat w"
  by (simp add: unsigned_ucast_eq take_bit_nat_eq_self unsigned_less[of w, simplified] less_trans[OF unsigned_less[of w, simplified]])

lemma ucast_of_nat32: "(ucast (of_nat n :: uint64) :: uint32) = of_nat n"
  by (rule word_unat_eq_iff[THEN iffD2]) (simp add: unat_ucast32 unat_of_nat mod_mod_cancel)

lemma unat_minus1_64: "unat (- 1 :: uint64) = 2 ^ 64 - 1"
  by (simp add: unsigned_minus_1_eq_mask mask_eq_exp_minus_1)

lemma concat_fixed_length:
  "(\<forall>x\<in>set xs. length (f x) = w) \<Longrightarrow> length (concat (map f xs)) = w * length xs"
  by (induction xs) auto

lemma concat_fixed_nth:
  "(\<forall>x\<in>set xs. length (f x) = w) \<Longrightarrow> k < length xs \<Longrightarrow>
   take w (drop (w * k) (concat (map f xs))) = f (xs ! k)"
proof (induction xs arbitrary: k)
  case Nil
  then show ?case by simp
next
  case (Cons x xs)
  show ?case
  proof (cases k)
    case 0
    with Cons.prems show ?thesis by simp
  next
    case (Suc k')
    with Cons.prems have "take w (drop (w * k') (concat (map f xs))) = f (xs ! k')"
      by (intro Cons.IH) auto
    with Suc Cons.prems show ?thesis by simp
  qed
qed

lemma length_entry [simp]: "length (entry ps k) = 12"
  by (simp add: entry_def)

lemma length_index_bytes [simp]: "length (index_bytes ps) = 12 * length ps"
  by (simp add: index_bytes_def concat_fixed_length[where w = 12])

lemma index_bytes_nth:
  "k < length ps \<Longrightarrow> take 12 (drop (12 * k) (index_bytes ps)) = entry ps k"
  using concat_fixed_nth[where f = "entry ps" and xs = "[0..<length ps]" and w = 12 and k = k]
  by (simp add: index_bytes_def)

lemma pos_of_snoc: "k \<le> length ps \<Longrightarrow> pos_of (ps @ qs) k = pos_of ps k"
  by (simp add: pos_of_def)

lemma entry_snoc: "k \<le> length ps \<Longrightarrow> entry (ps @ qs) k = entry ps k"
  by (simp add: entry_def pos_of_snoc)

lemma index_bytes_snoc: "index_bytes (ps @ [p]) = index_bytes ps @ entry ps (length ps)"
proof -
  have "map (entry (ps @ [p])) [0..<length ps] = map (entry ps) [0..<length ps]"
    by (rule map_cong) (simp_all add: entry_snoc)
  then show ?thesis unfolding index_bytes_def by (simp add: entry_snoc del: map_eq_conv)
qed

lemma pos_of_all: "pos_of ps (length ps) = length (concat (map frame ps))"
  by (simp add: pos_of_def)

lemma index_Read_entry:
  assumes sz: "unat (index_size i) = 12 * n" and npos: "0 < n" and k32: "k < 2 ^ 32"
      and arg: "in' = of_nat k \<or> in' = - 1 \<and> k = n - 1"
  shows "index_Read i in' =
           (if n \<le> k then ((0, 0), Some EOF)
            else case (slice (index_mmap i) (12 * k) (12 * k + 4),
                       slice (index_mmap i) (12 * k + 4) (12 * k + 12)) of
                   (Some ob, Some pb) \<Rightarrow> ((Uint32 ob, Uint64 pb), None)
                 | _ \<Rightarrow> ((0, 0), Some Panic))"
proof -
  have nz: "index_size i \<noteq> 0" using sz npos by (auto simp flip: unat_0_iff)
  have d: "unat (index_size i div 12 - 1) = n - 1"
  proof -
    have "unat (index_size i div 12) = n" by (simp add: unat_div sz)
    moreover from this npos have "index_size i div 12 \<noteq> 0" by (auto simp flip: unat_0_iff)
    ultimately show ?thesis by (simp add: unat_minus_one)
  qed
  define body where "body = (\<lambda>out::uint32.
      if index_size i < (ucast out :: uint64) * 12 + 12 then ((0, 0), Some EOF)
      else case (slice (index_mmap i) (unat ((ucast out :: uint64) * 12))
                   (unat ((ucast out :: uint64) * 12 + 4)),
                 slice (index_mmap i) (unat ((ucast out :: uint64) * 12 + 4))
                   (unat ((ucast out :: uint64) * 12 + 12))) of
             (Some ob, Some pb) \<Rightarrow> ((Uint32 ob, Uint64 pb), None)
           | _ \<Rightarrow> ((0, 0), Some Panic))"
  define out :: uint32 where
    "out = (if in' = - 1 then ucast (index_size i div 12 - 1) else ucast in')"
  have unfold: "index_Read i in' = body out"
    unfolding index_Read_def body_def out_def entWidth_def offWidth_def posWidth_def Let_def
    using nz by (simp cong: option.case_cong)
  have uo: "unat out = k"
  proof (cases "in' = - 1")
    case True
    with arg have "k = n - 1"
      using k32 by (auto simp: word_unat_eq_iff unat_minus1_64 unat_of_nat)
    with True k32 show ?thesis by (simp add: out_def unat_ucast32 d)
  next
    case False
    with arg have "in' = of_nat k" by simp
    with False k32 show ?thesis by (simp add: out_def unat_ucast32 unat_of_nat)
  qed
  have bp: "unat ((ucast out :: uint64) * 12) = 12 * k"
  proof -
    have "unat (ucast out :: uint64) * unat (12 :: uint64) < 2 ^ LENGTH(64)"
      using k32 by (simp add: unat_ucast64 uo)
    then have "unat ((ucast out :: uint64) * 12) = unat (ucast out :: uint64) * unat (12 :: uint64)"
      by (simp only: unat_mult_lem)
    then show ?thesis by (simp add: unat_ucast64 uo)
  qed
  have b4: "unat ((ucast out :: uint64) * 12 + 4) = 12 * k + 4"
    using unat_plus_small[of "(ucast out :: uint64) * 12" 4] k32 by (simp add: bp)
  have b12: "unat ((ucast out :: uint64) * 12 + 12) = 12 * k + 12"
    using unat_plus_small[of "(ucast out :: uint64) * 12" 12] k32 by (simp add: bp)
  have chk: "index_size i < (ucast out :: uint64) * 12 + 12 \<longleftrightarrow> n \<le> k"
    by (auto simp add: word_less_nat_alt b12 sz)
  show ?thesis
    unfolding unfold body_def chk bp b4 b12 by (rule refl)
qed

lemma index_Read_at:
  assumes sz: "unat (index_size i) = 12 * n"
      and k: "k < n" and n: "n \<le> 2 ^ 32"
      and len: "12 * n \<le> length (index_mmap i)"
      and arg: "in' = of_nat k \<or> in' = - 1 \<and> k = n - 1"
  shows "index_Read i in' =
           ((Uint32 (take 4 (drop (12 * k) (index_mmap i))),
             Uint64 (take 8 (drop (12 * k + 4) (index_mmap i)))), None)"
proof -
  have "0 < n" "k < 2 ^ 32" "12 * k + 12 \<le> length (index_mmap i)" using k n len by simp_all
  with index_Read_entry[OF sz this(1,2) arg] k show ?thesis by (simp add: slice_def)
qed

lemma index_Read_panics:
  assumes sz: "unat (index_size i) = 12 * n" and npos: "0 < n" and n: "n \<le> 2 ^ 32"
      and short: "length (index_mmap i) < 12 * n"
  shows "snd (index_Read i (- 1)) = Some Panic"
proof -
  have "n - 1 < 2 ^ 32" "\<not> n \<le> n - 1" "12 * (n - 1) + 12 = 12 * n" using npos n by simp_all
  with index_Read_entry[OF sz npos this(1), of "- 1"] short show ?thesis
    by (simp add: slice_def split: option.splits)
qed

lemma index_Read_miss:
  assumes sz: "unat (index_size i) = 12 * n" and k: "n \<le> k" "k < 2 ^ 32"
  shows "index_Read i (of_nat k) = ((0, 0), Some EOF)"
proof (cases "n = 0")
  case True
  with sz have "index_size i = 0" by (simp flip: unat_0_iff)
  then show ?thesis by (simp add: index_Read_def)
next
  case False
  then have "0 < n" by simp
  from index_Read_entry[OF sz this k(2), of "of_nat k"] k(1) show ?thesis by simp
qed

section \<open>The store and the segment under the invariant\<close>

lemma Uint32_PutUint32' [simp]: "Uint32 (PutUint32 w) = w"
  using Uint32_PutUint32[of w "[]"] by simp

lemma Uint64_PutUint64' [simp]: "Uint64 (PutUint64 w) = w"
  using Uint64_PutUint64[of w "[]"] by simp

lemma length_frame [simp]: "length (frame p) = 8 + length p"
  by (simp add: frame_def)

lemma total_bound:
  "(\<forall>p\<in>set ps. length p < 2 ^ 31) \<Longrightarrow>
   length (concat (map frame ps)) \<le> length ps * (2 ^ 31 + 8)"
  by (induction ps) auto

lemma total_bound64:
  assumes "\<forall>p\<in>set ps. length p < 2 ^ 31" "length ps \<le> 2 ^ 32"
  shows "length (concat (map frame ps)) < 2 ^ 64"
proof -
  have "length ps * (2 ^ 31 + 8) \<le> 2 ^ 32 * (2 ^ 31 + 8 :: nat)"
    using assms(2) by (rule mult_le_mono1)
  with total_bound[OF assms(1)] show ?thesis by simp
qed

lemma content_split:
  "k < length ps \<Longrightarrow>
   concat (map frame ps) =
     concat (map frame (take k ps)) @ frame (ps ! k) @ concat (map frame (drop (Suc k) ps))"
  by (subst id_take_nth_drop[of k ps]) simp_all

lemma store_Append_ok:
  "\<not> io WriteStoreLen \<Longrightarrow> \<not> io WriteStorePayload \<Longrightarrow>
   store_Append io p st =
     ((of_nat (length p + 8), store_size st, None),
      st\<lparr>store_buf := store_buf st @ frame p,
         store_size := store_size st + of_nat (length p + 8)\<rparr>)"
  by (simp add: store_Append_def frame_def lenWidth_def Let_def)

lemma store_Append_fail:
  "io WriteStoreLen \<or> io WriteStorePayload \<Longrightarrow> snd (snd (fst (store_Append io p st))) \<noteq> None"
  by (auto simp: store_Append_def Let_def)

lemma store_Read_at:
  assumes c: "store_file st @ store_buf st = concat (map frame ps)"
      and k: "k < length ps"
      and tot: "length (concat (map frame ps)) < 2 ^ 64"
      and io: "\<not> io FlushStore" "\<not> io ReadStore"
  shows "store_Read io (of_nat (pos_of ps k)) st = (Inr (ps ! k), flush st)"
proof -
  let ?A = "concat (map frame (take k ps))" and ?B = "concat (map frame (drop (Suc k) ps))"
  let ?p = "ps ! k"
  have split: "concat (map frame ps) = ?A @ frame ?p @ ?B" by (rule content_split[OF k])
  have f: "store_file (flush st) = ?A @ frame ?p @ ?B"
    using c split by (simp add: flush_def)
  have lenA: "length ?A + (8 + length ?p) \<le> length (concat (map frame ps))"
    by (subst split) simp
  have up: "unat (of_nat (pos_of ps k) :: uint64) = length ?A"
    using lenA tot by (simp add: pos_of_def unat_of_nat64)
  have ul: "unat (of_nat (length ?p) :: uint64) = length ?p"
    using lenA tot by (simp add: unat_of_nat64)
  have pre: "take 8 (drop (length ?A) (store_file (flush st))) = PutUint64 (of_nat (length ?p))"
    by (simp add: f frame_def)
  have pay: "take (length ?p) (drop (length ?A + 8) (store_file (flush st))) = ?p"
    by (simp add: f frame_def)
  have fl: "length (store_file (flush st)) = length ?A + (8 + length ?p) + length ?B"
    by (simp add: f)
  show ?thesis
    using io by (simp add: store_Read_def Let_def lenWidth_def up pre ul pay fl)
qed

lemma holds_flush: "holds (s\<lparr>store := flush (store s)\<rparr>) ps = holds s ps"
  by (simp add: holds_def flush_def)

lemma holds_Read:
  assumes h: "holds s ps" and k: "k < length ps" and n: "length ps \<le> 2 ^ 32"
      and sm: "\<forall>p\<in>set ps. length p < 2 ^ 31"
      and io: "\<not> io FlushStore" "\<not> io ReadStore"
  shows "segment_Read cd io (baseOffset s + of_nat k) s =
           ((Some (fst (Unmarshal cd (ps ! k))), snd (Unmarshal cd (ps ! k))),
            s\<lparr>store := flush (store s)\<rparr>)"
proof -
  let ?m = "index_mmap (index s)"
  from h have sz: "unat (index_size (index s)) = 12 * length ps"
    and len: "12 * length ps \<le> length ?m"
    and ib: "take (12 * length ps) ?m = index_bytes ps"
    and c: "store_file (store s) @ store_buf (store s) = concat (map frame ps)"
    by (simp_all add: holds_def)
  have tot: "length (concat (map frame ps)) < 2 ^ 64" by (rule total_bound64[OF sm n])
  have e: "take 12 (drop (12 * k) ?m) = entry ps k"
  proof -
    have "take 12 (drop (12 * k) (take (12 * length ps) ?m)) = entry ps k"
      unfolding ib by (rule index_bytes_nth[OF k])
    moreover have "take 12 (drop (12 * k) (take (12 * length ps) ?m)) = take 12 (drop (12 * k) ?m)"
      using k by (simp add: drop_take min_def)
    ultimately show ?thesis by simp
  qed
  have d: "drop (12 * k) ?m = entry ps k @ drop 12 (drop (12 * k) ?m)"
    using append_take_drop_id[of 12 "drop (12 * k) ?m"] e by simp
  have o: "take 4 (drop (12 * k) ?m) = PutUint32 (of_nat k)"
    by (subst d) (simp add: entry_def)
  have "drop (12 * k + 4) ?m = drop 4 (drop (12 * k) ?m)" by (simp add: add.commute)
  also have "\<dots> = PutUint64 (of_nat (pos_of ps k)) @ drop 12 (drop (12 * k) ?m)"
    by (subst d) (simp add: entry_def)
  finally have p: "take 8 (drop (12 * k + 4) ?m) = PutUint64 (of_nat (pos_of ps k))" by simp
  have ir: "index_Read (index s) (of_nat k) = ((of_nat k, of_nat (pos_of ps k)), None)"
    using index_Read_at[OF sz k n len, of "of_nat k"] by (simp add: o p)
  have sr: "store_Read io (of_nat (pos_of ps k)) (store s) = (Inr (ps ! k), flush (store s))"
    by (rule store_Read_at[OF c k tot io])
  show ?thesis
    by (simp add: segment_Read_def ir sr split: prod.splits)
qed

lemma not_neg_bound:
  assumes "\<not> sint (w::uint64) < 0"
  shows "unat w < 2 ^ 63"
proof -
  have nb: "\<not> bit (uint w) 63" using assms by (simp add: sint_uint)
  have "uint w < 2 ^ 64" using uint_lt2p[of w] by simp
  then have "uint w = take_bit (Suc 63) (uint w)"
    by (simp add: take_bit_int_eq_self)
  also have "\<dots> = take_bit 63 (uint w)"
    using nb by (simp only: take_bit_Suc_from_most) simp
  finally have "uint w = take_bit 63 (uint w)" .
  moreover have "take_bit 63 (uint w) < 2 ^ 63" by (rule take_bit_int_less_exp)
  ultimately have "uint w < 2 ^ 63" by simp
  then have "int (unat w) < int (2 ^ 63)" by simp
  then show ?thesis by (simp only: of_nat_less_iff)
qed

lemma Append_frame:
  "segment_Append cd io r s = (res, r', s') \<Longrightarrow>
   store_name (store s') = store_name (store s) \<and> index_file (index s') = index_file (index s) \<and>
   config s' = config s \<and> baseOffset s' = baseOffset s"
  by (auto simp: segment_Append_def store_Append_def index_Write_def Let_def
      split: sum.splits prod.splits option.splits if_splits)

lemma ucast_of_nat64: "n < 2 ^ 32 \<Longrightarrow> (ucast (of_nat n :: uint32) :: uint64) = of_nat n"
  by (rule word_unat_eq_iff[THEN iffD2]) (simp add: unat_ucast64 unat_of_nat)

lemma holds_Append:
  assumes h: "holds s ps"
      and ok: "segment_Append cd io r s = ((off, None), r', s')"
      and tot: "\<And>q. Marshal cd (r\<lparr>Offset := nextOffset s\<rparr>) = Inr q \<Longrightarrow>
                  length (concat (map frame (ps @ [q]))) < 2 ^ 64"
  shows "\<exists>p. Marshal cd (r\<lparr>Offset := nextOffset s\<rparr>) = Inr p \<and> holds s' (ps @ [p]) \<and>
             off = nextOffset s"
proof -
  let ?n = "length ps" and ?i = "index s" and ?st = "store s"
  from h have c: "store_file ?st @ store_buf ?st = concat (map frame ps)"
    and us: "unat (store_size ?st) = length (concat (map frame ps))"
    and sz: "unat (index_size ?i) = 12 * ?n"
    and len: "12 * ?n \<le> length (index_mmap ?i)"
    and cfg: "length (index_mmap ?i) = unat (MaxIndexBytes (Segment (config s)))"
    and l63: "length (index_mmap ?i) < 2 ^ 63"
    and ib: "take (12 * ?n) (index_mmap ?i) = index_bytes ps"
    and nx: "nextOffset s = baseOffset s + of_nat ?n"
    by (simp_all add: holds_def)
  from ok obtain p where m: "Marshal cd (r\<lparr>Offset := nextOffset s\<rparr>) = Inr p"
    by (auto simp: segment_Append_def Let_def split: sum.splits)
  have nf: "\<not> io WriteStoreLen" "\<not> io WriteStorePayload"
    using ok m
    by (auto simp: segment_Append_def store_Append_def Let_def
        split: prod.splits option.splits if_splits)
  note sa = store_Append_ok[OF nf, of p ?st]
  have off32: "(ucast (nextOffset s - baseOffset s) :: uint32) = of_nat ?n"
    by (simp add: nx ucast_of_nat32)
  have room: "unat (index_size ?i) + 12 \<le> length (index_mmap ?i)"
  proof (rule ccontr)
    assume "\<not> ?thesis"
    then have "length (index_mmap ?i) < unat (index_size ?i) + 12" by simp
    from index_Write_full[OF this _ l63, of "of_nat ?n" "store_size ?st"] sz len
    have "index_Write (of_nat ?n) (store_size ?st) ?i = (Some EOF, ?i)" by simp
    with ok m sa off32 show False by (simp add: segment_Append_def Let_def)
  qed
  note iw = index_Write_ok[OF room l63, of "of_nat ?n" "store_size ?st"]
  define st1 where "st1 = ?st\<lparr>store_buf := store_buf ?st @ frame p,
                                 store_size := store_size ?st + of_nat (length p + 8)\<rparr>"
  define i1 where "i1 = ?i\<lparr>index_mmap := take (12 * ?n) (index_mmap ?i) @ PutUint32 (of_nat ?n)
                                      @ PutUint64 (store_size ?st) @ drop (12 * ?n + 12) (index_mmap ?i),
                                index_size := index_size ?i + 12\<rparr>"
  have sa': "store_Append io p ?st = ((of_nat (length p + 8), store_size ?st, None), st1)"
    using sa by (simp add: st1_def)
  have iw': "index_Write (ucast (nextOffset s - baseOffset s)) (store_size ?st) ?i = (None, i1)"
    using iw by (simp add: i1_def sz off32)
  have run: "segment_Append cd io r s =
               ((nextOffset s, None), r\<lparr>Offset := nextOffset s\<rparr>,
                s\<lparr>store := st1, index := i1, nextOffset := nextOffset s + 1\<rparr>)"
    by (simp add: segment_Append_def Let_def m sa' iw')
  with ok have s': "s' = s\<lparr>store := st1, index := i1, nextOffset := nextOffset s + 1\<rparr>"
    and off: "off = nextOffset s" by auto
  have t: "length (concat (map frame ps)) + (length p + 8) < 2 ^ 64"
    using tot[OF m] by simp
  have pos: "store_size ?st = of_nat (pos_of ps ?n)"
    unfolding pos_of_all us[symmetric] by simp
  have h1: "store_file (store s') @ store_buf (store s') = concat (map frame (ps @ [p]))"
    using c by (simp add: s' st1_def)
  have h2: "unat (store_size (store s')) = length (concat (map frame (ps @ [p])))"
    using unat_plus_small[of "store_size ?st" "length p + 8"] t us
    by (simp add: s' st1_def)
  have h3: "unat (index_size (index s')) = 12 * length (ps @ [p])"
    using unat_plus_small[of "index_size ?i" 12] room l63 sz
    by (simp add: s' i1_def)
  have h4: "length (index_mmap (index s')) = length (index_mmap ?i)"
    using room sz by (simp add: s' i1_def)
  have h5: "take (12 * length (ps @ [p])) (index_mmap (index s')) = index_bytes (ps @ [p])"
    using len ib by (simp add: s' i1_def index_bytes_snoc entry_def pos)
  have h6: "nextOffset s' = baseOffset s' + of_nat (length (ps @ [p]))"
    by (simp add: s' nx)
  have h7: "config s' = config s" by (simp add: s')
  have h': "holds s' (ps @ [p])"
    unfolding holds_def h4 h7
    using h1 h2 h3 h5 h6 room sz cfg l63 by simp
  show ?thesis
  proof (intro exI conjI)
    show "Marshal cd (r\<lparr>Offset := nextOffset s\<rparr>) = Inr p" by (rule m)
    show "holds s' (ps @ [p])" by (rule h')
    show "off = nextOffset s" by (rule off)
  qed
qed

section \<open>Opening and closing\<close>

lemma length_resize [simp]: "length (resize n bs) = n"
  by (simp add: resize_def)

lemma take_resize: "length bs \<le> n \<Longrightarrow> take (length bs) (resize n bs) = bs"
  by (simp add: resize_def)

lemma resize_take: "n \<le> length bs \<Longrightarrow> resize n bs = take n bs"
  by (simp add: resize_def)

lemma newSegment_ok:
  assumes "newSegment io dir base c w = (Inr s, w')"
  shows "store s = \<lparr>store_name = (dir, base, StoreExt),
                    store_file = content_of w (dir, base, StoreExt), store_buf = [],
                    store_size = of_nat (length (content_of w (dir, base, StoreExt)))\<rparr> \<and>
         index s = \<lparr>index_file = (dir, base, IndexExt),
                    index_mmap = resize (unat (MaxIndexBytes (Segment c)))
                                   (content_of w (dir, base, IndexExt)),
                    index_size = of_nat (length (content_of w (dir, base, IndexExt)))\<rparr> \<and>
         baseOffset s = base \<and> config s = c \<and> \<not> sint (MaxIndexBytes (Segment c)) < 0 \<and>
         snd (index_Read (index s) (- 1)) \<noteq> Some Panic \<and>
         nextOffset s = (case index_Read (index s) (- 1) of
                           ((off, _), None) \<Rightarrow> base + ucast off + 1
                         | (_, Some _) \<Rightarrow> base)"
  using assms
  unfolding newSegment_def OpenFile_def newStore_def newIndex_def content_of_def Let_def
  by (auto split: if_splits option.splits sum.splits prod.splits error.splits)

lemma Close_files:
  assumes "segment_Close io s w = (None, s1, w1)"
      and "store_name (store s) \<noteq> index_file (index s)"
  shows "files w1 (store_name (store s)) = Some (store_file (store s) @ store_buf (store s)) \<and>
         files w1 (index_file (index s)) =
           Some (resize (unat (index_size (index s))) (index_mmap (index s)))"
  using assms
  unfolding segment_Close_def index_Close_def store_Close_def flush_def Let_def
  by (auto split: if_splits option.splits prod.splits)

lemma entry_at:
  assumes ib: "take (12 * length ps) m = index_bytes ps"
      and k: "k < length ps"
  shows "take 4 (drop (12 * k) m) = PutUint32 (of_nat k) \<and>
         take 8 (drop (12 * k + 4) m) = PutUint64 (of_nat (pos_of ps k))"
proof -
  have e: "take 12 (drop (12 * k) m) = entry ps k"
  proof -
    have "take 12 (drop (12 * k) (take (12 * length ps) m)) = entry ps k"
      unfolding ib by (rule index_bytes_nth[OF k])
    moreover have "take 12 (drop (12 * k) (take (12 * length ps) m)) = take 12 (drop (12 * k) m)"
      using k by (simp add: drop_take min_def)
    ultimately show ?thesis by simp
  qed
  have d: "drop (12 * k) m = entry ps k @ drop 12 (drop (12 * k) m)"
    using append_take_drop_id[of 12 "drop (12 * k) m"] e by simp
  have o: "take 4 (drop (12 * k) m) = PutUint32 (of_nat k)"
    by (subst d) (simp add: entry_def)
  have "drop (12 * k + 4) m = drop 4 (drop (12 * k) m)" by (simp add: add.commute)
  also have "\<dots> = PutUint64 (of_nat (pos_of ps k)) @ drop 12 (drop (12 * k) m)"
    by (subst d) (simp add: entry_def)
  finally have p: "take 8 (drop (12 * k + 4) m) = PutUint64 (of_nat (pos_of ps k))" by simp
  from o p show ?thesis by simp
qed

lemma index_Read_holds:
  assumes sz: "unat (index_size i) = 12 * length ps"
      and ib: "take (12 * length ps) (index_mmap i) = index_bytes ps"
      and len: "12 * length ps \<le> length (index_mmap i)"
      and k: "k < length ps" and n: "length ps \<le> 2 ^ 32"
      and arg: "in' = of_nat k \<or> in' = - 1 \<and> k = length ps - 1"
  shows "index_Read i in' = ((of_nat k, of_nat (pos_of ps k)), None)"
  using index_Read_at[OF sz k n len arg] entry_at[OF ib k] by simp

lemma newSegment_holds:
  assumes ok: "newSegment io dir base c w = (Inr s, w')"
      and sb: "content_of w (dir, base, StoreExt) = concat (map frame ps)"
      and ib: "content_of w (dir, base, IndexExt) = index_bytes ps"
      and n: "length ps \<le> 2 ^ 32"
      and room: "12 * length ps \<le> unat (MaxIndexBytes (Segment c))"
      and tot: "length (concat (map frame ps)) < 2 ^ 64"
  shows "holds s ps \<and> baseOffset s = base \<and> config s = c \<and>
         store_name (store s) = (dir, base, StoreExt) \<and>
         index_file (index s) = (dir, base, IndexExt)"
proof -
  let ?M = "unat (MaxIndexBytes (Segment c))"
  note r = newSegment_ok[OF ok]
  from r have st: "store s = \<lparr>store_name = (dir, base, StoreExt),
                    store_file = concat (map frame ps), store_buf = [],
                    store_size = of_nat (length (concat (map frame ps)))\<rparr>"
    by (simp add: sb)
  from r have ix: "index s = \<lparr>index_file = (dir, base, IndexExt),
                    index_mmap = resize ?M (index_bytes ps),
                    index_size = of_nat (12 * length ps)\<rparr>"
    by (simp add: ib)
  from r have bs: "baseOffset s = base" and cf: "config s = c"
    and nn: "\<not> sint (MaxIndexBytes (Segment c)) < 0" by simp_all
  from r have nx: "nextOffset s = (case index_Read (index s) (- 1) of
                           ((off, _), None) \<Rightarrow> base + ucast off + 1
                         | (_, Some _) \<Rightarrow> base)" by simp
  have M63: "?M < 2 ^ 63" by (rule not_neg_bound[OF nn])
  have "unat (of_nat (12 * length ps) :: uint64) = 12 * length ps"
    using room M63 by (intro unat_of_nat64) simp
  moreover have "index_size (index s) = of_nat (12 * length ps)"
    unfolding ix by (simp only: index.select_convs)
  ultimately have usz: "unat (index_size (index s)) = 12 * length ps" by metis
  have tk: "take (12 * length ps) (index_mmap (index s)) = index_bytes ps"
    using take_resize[of "index_bytes ps" ?M] room by (simp add: ix)
  have ln: "12 * length ps \<le> length (index_mmap (index s))"
    using room by (simp add: ix)
  have nxt: "nextOffset s = base + of_nat (length ps)"
  proof (cases "length ps = 0")
    case True
    then have "index_size (index s) = 0" by (simp add: ix)
    then have "index_Read (index s) (- 1) = ((0, 0), Some EOF)" by (simp add: index_Read_def)
    with True show ?thesis by (simp add: nx)
  next
    case False
    then have k: "length ps - 1 < length ps" by simp
    have "index_Read (index s) (- 1) =
            ((of_nat (length ps - 1), of_nat (pos_of ps (length ps - 1))), None)"
      by (rule index_Read_holds[OF usz tk ln k n]) simp
    moreover have "(ucast (of_nat (length ps - 1) :: uint32) :: uint64) = of_nat (length ps - 1)"
      using n False by (intro ucast_of_nat64) simp
    moreover have "(of_nat (length ps - 1) :: uint64) + 1 = of_nat (length ps)"
      using False by (metis Suc_pred' add.commute neq0_conv of_nat_Suc)
    ultimately show ?thesis by (simp add: nx add.assoc)
  qed
  have "holds s ps"
    unfolding holds_def
    using usz tk ln nxt tot M63
    by (simp add: st ix bs cf unat_of_nat64)
  then show ?thesis by (simp add: bs cf st ix)
qed

lemma holds_reopen:
  assumes h: "holds s ps" and n: "length ps \<le> 2 ^ 32"
      and nm: "store_name (store s) = (dir, baseOffset s, StoreExt)"
              "index_file (index s) = (dir, baseOffset s, IndexExt)"
      and cl: "segment_Close io s w = (None, s1, w1)"
      and op: "newSegment io2 dir (baseOffset s) c' w1 = (Inr s2, w2)"
  shows "holds s2 ps \<and> baseOffset s2 = baseOffset s \<and> config s2 = c' \<and>
         nextOffset s2 = nextOffset s \<and>
         store_name (store s2) = (dir, baseOffset s, StoreExt) \<and>
         index_file (index s2) = (dir, baseOffset s, IndexExt)"
proof -
  let ?M = "unat (MaxIndexBytes (Segment c'))"
  from h have c: "store_file (store s) @ store_buf (store s) = concat (map frame ps)"
    and us: "unat (store_size (store s)) = length (concat (map frame ps))"
    and sz: "unat (index_size (index s)) = 12 * length ps"
    and len: "12 * length ps \<le> length (index_mmap (index s))"
    and ib: "take (12 * length ps) (index_mmap (index s)) = index_bytes ps"
    and nx: "nextOffset s = baseOffset s + of_nat (length ps)"
    by (simp_all add: holds_def)
  have ne: "store_name (store s) \<noteq> index_file (index s)" by (simp add: nm)
  note f = Close_files[OF cl ne]
  have sb: "content_of w1 (dir, baseOffset s, StoreExt) = concat (map frame ps)"
    using f c by (simp add: content_of_def nm)
  have ibs: "content_of w1 (dir, baseOffset s, IndexExt) = index_bytes ps"
    using f ib len by (simp add: content_of_def nm sz resize_take)
  have tot: "length (concat (map frame ps)) < 2 ^ 64"
    using unsigned_less[of "store_size (store s)", where ?'a = nat] by (simp add: us[symmetric])
  note r = newSegment_ok[OF op]
  have room: "12 * length ps \<le> ?M"
  proof (rule ccontr)
    assume short: "\<not> ?thesis"
    then have npos: "0 < length ps" by (cases ps) simp_all
    have "unat (of_nat (12 * length ps) :: uint64) = 12 * length ps"
      using n by (intro unat_of_nat64) simp
    moreover from r have "index_size (index s2) = of_nat (12 * length ps)"
      by (simp add: ibs del: of_nat_mult)
    ultimately have usz: "unat (index_size (index s2)) = 12 * length ps" by metis
    from r have "length (index_mmap (index s2)) = ?M" by simp
    with short have "length (index_mmap (index s2)) < 12 * length ps" by simp
    note pan = index_Read_panics[OF usz npos n this]
    from r have "snd (index_Read (index s2) (- 1)) \<noteq> Some Panic" by (elim conjE)
    from this pan show False by (rule notE)
  qed
  from newSegment_holds[OF op sb ibs n room tot]
  have r2: "holds s2 ps \<and> baseOffset s2 = baseOffset s \<and> config s2 = c' \<and>
         store_name (store s2) = (dir, baseOffset s, StoreExt) \<and>
         index_file (index s2) = (dir, baseOffset s, IndexExt)" .
  then have "nextOffset s2 = baseOffset s + of_nat (length ps)" by (simp add: holds_def)
  with r2 nx show ?thesis by simp
qed

section \<open>Runs of appends under the invariant\<close>

lemma Appends_frame:
  "segment_Appends cd irs s = (ress, s') \<Longrightarrow>
   store_name (store s') = store_name (store s) \<and> index_file (index s') = index_file (index s) \<and>
   config s' = config s \<and> baseOffset s' = baseOffset s \<and> length ress = length irs"
proof (induction irs arbitrary: s ress s')
  case Nil
  then show ?case by simp
next
  case (Cons ir irs)
  obtain io r where ir: "ir = (io, r)" by (cases ir)
  obtain res r' s1 where a: "segment_Append cd io r s = (res, r', s1)"
    by (cases "segment_Append cd io r s") auto
  obtain ress1 s2 where b: "segment_Appends cd irs s1 = (ress1, s2)"
    by (cases "segment_Appends cd irs s1") auto
  from Cons.prems ir a b have eq: "ress = res # ress1" "s' = s2" by auto
  from Cons.IH[OF b] Append_frame[OF a] eq show ?case by simp
qed

lemma Appends_holds:
  assumes small: "\<forall>r p. Marshal cd r = Inr p \<longrightarrow> length p < 2 ^ 31"
  shows "holds s ps \<Longrightarrow> segment_Appends cd irs s = (ress, s') \<Longrightarrow>
         \<forall>res\<in>set ress. snd res = None \<Longrightarrow> length ps + length irs \<le> 2 ^ 32 \<Longrightarrow>
         \<forall>p\<in>set ps. length p < 2 ^ 31 \<Longrightarrow>
         \<exists>qs. holds s' (ps @ qs) \<and> length qs = length irs \<and> (\<forall>p\<in>set qs. length p < 2 ^ 31) \<and>
              (\<forall>k<length irs.
                 Marshal cd ((snd (irs ! k))\<lparr>Offset := nextOffset s + of_nat k\<rparr>) = Inr (qs ! k))"
proof -
  have sizes: "length p < 2 ^ 31" if "Marshal cd r = Inr p" for r p
    using small that by blast
  show "holds s ps \<Longrightarrow> segment_Appends cd irs s = (ress, s') \<Longrightarrow>
         \<forall>res\<in>set ress. snd res = None \<Longrightarrow> length ps + length irs \<le> 2 ^ 32 \<Longrightarrow>
         \<forall>p\<in>set ps. length p < 2 ^ 31 \<Longrightarrow>
         \<exists>qs. holds s' (ps @ qs) \<and> length qs = length irs \<and> (\<forall>p\<in>set qs. length p < 2 ^ 31) \<and>
              (\<forall>k<length irs.
                 Marshal cd ((snd (irs ! k))\<lparr>Offset := nextOffset s + of_nat k\<rparr>) = Inr (qs ! k))"
  proof (induction irs arbitrary: s ps ress s')
  case Nil
  then show ?case by simp
next
  case (Cons ir irs)
  obtain io r where ir: "ir = (io, r)" by (cases ir)
  obtain res r' s1 where a: "segment_Append cd io r s = (res, r', s1)"
    by (cases "segment_Append cd io r s") auto
  obtain ress1 s2 where b: "segment_Appends cd irs s1 = (ress1, s2)"
    by (cases "segment_Appends cd irs s1") auto
  from Cons.prems(2) ir a b have eq: "ress = res # ress1" "s' = s2" by auto
  from Cons.prems(3) eq have ok: "snd res = None" and oks: "\<forall>res\<in>set ress1. snd res = None"
    by simp_all
  from ok have a': "segment_Append cd io r s = ((fst res, None), r', s1)"
    using a by (cases res) simp
  have tot: "length (concat (map frame (ps @ [q]))) < 2 ^ 64"
    if "Marshal cd (r\<lparr>Offset := nextOffset s\<rparr>) = Inr q" for q
  proof (rule total_bound64)
    show "\<forall>p\<in>set (ps @ [q]). length p < 2 ^ 31"
      using Cons.prems(5) sizes[OF that] by simp
    show "length (ps @ [q]) \<le> 2 ^ 32" using Cons.prems(4) by simp
  qed
  from holds_Append[OF Cons.prems(1) a' tot]
  obtain p where m: "Marshal cd (r\<lparr>Offset := nextOffset s\<rparr>) = Inr p"
    and h1: "holds s1 (ps @ [p])" by blast
  have n1: "nextOffset s1 = nextOffset s + 1"
    using Append_step[OF a] ok by simp
  have sm: "\<forall>p\<in>set (ps @ [p]). length p < 2 ^ 31"
    using Cons.prems(5) sizes[OF m] by simp
  have ln: "length (ps @ [p]) + length irs \<le> 2 ^ 32" using Cons.prems(4) by simp
  from Cons.IH[OF h1 b oks ln sm]
  obtain qs where h2: "holds s2 ((ps @ [p]) @ qs)" and lq: "length qs = length irs"
    and sq: "\<forall>p\<in>set qs. length p < 2 ^ 31"
    and mq: "\<forall>k<length irs.
                 Marshal cd ((snd (irs ! k))\<lparr>Offset := nextOffset s1 + of_nat k\<rparr>) = Inr (qs ! k)"
    by blast
  have mk: "Marshal cd ((snd ((ir # irs) ! k))\<lparr>Offset := nextOffset s + of_nat k\<rparr>)
              = Inr ((p # qs) ! k)" if "k < length (ir # irs)" for k
  proof (cases k)
    case 0
    then show ?thesis by (simp add: ir m)
  next
    case (Suc j)
    with that have "j < length irs" by simp
    with mq have "Marshal cd ((snd (irs ! j))\<lparr>Offset := nextOffset s1 + of_nat j\<rparr>) = Inr (qs ! j)"
      by blast
    moreover have "nextOffset s1 + of_nat j = nextOffset s + of_nat (Suc j)"
      by (simp add: n1 ac_simps)
    ultimately show ?thesis by (simp add: Suc)
  qed
  show ?case
  proof (intro exI[of _ "p # qs"] conjI)
    show "holds s' (ps @ p # qs)" using h2 eq by simp
    show "length (p # qs) = length (ir # irs)" using lq by simp
    show "\<forall>p\<in>set (p # qs). length p < 2 ^ 31" using sq sizes[OF m] by simp
    show "\<forall>k<length (ir # irs).
            Marshal cd ((snd ((ir # irs) ! k))\<lparr>Offset := nextOffset s + of_nat k\<rparr>)
              = Inr ((p # qs) ! k)"
      using mk by blast
  qed
qed
qed

section \<open>Fresh segments and the capacity of the index\<close>

lemma fresh_content:
  "fresh w dir base \<Longrightarrow>
   content_of w (dir, base, StoreExt) = [] \<and> content_of w (dir, base, IndexExt) = []"
  by (auto simp: fresh_def content_of_def)

lemma fresh_empty: "fresh empty_world dir base"
  by (simp add: fresh_def empty_world_def)

lemma newSegment_fresh:
  assumes "fresh w dir base" and "newSegment io dir base c w = (Inr s, w')"
  shows "holds s [] \<and> baseOffset s = base \<and> config s = c \<and>
         store_name (store s) = (dir, base, StoreExt) \<and>
         index_file (index s) = (dir, base, IndexExt)"
proof -
  have "index_bytes [] = []" by (simp add: index_bytes_def)
  with fresh_content[OF assms(1)] show ?thesis
    by (intro newSegment_holds[OF assms(2), of "[]"]) simp_all
qed

lemma index_Write_fails_iff:
  assumes "unat (index_size i) \<le> length (index_mmap i)" "length (index_mmap i) < 2 ^ 63"
  shows "fst (index_Write off pos i) =
           (if length (index_mmap i) < unat (index_size i) + 12 then Some EOF else None)"
proof (cases "length (index_mmap i) < unat (index_size i) + 12")
  case True
  from index_Write_full[OF True assms] True show ?thesis by simp
next
  case False
  then have "unat (index_size i) + 12 \<le> length (index_mmap i)" by simp
  from index_Write_ok[OF this assms(2)] False show ?thesis by simp
qed

lemma Append_room:
  assumes sz: "unat (index_size (index s)) = 12 * j"
      and len: "length (index_mmap (index s)) = 12 * k" and k63: "12 * k < (2::nat) ^ 63"
      and nf: "\<not> io WriteStoreLen" "\<not> io WriteStorePayload"
      and m: "Marshal cd (r\<lparr>Offset := nextOffset s\<rparr>) = Inr p"
      and a: "segment_Append cd io r s = (res, r', s')"
  shows "j < k \<Longrightarrow> res = (nextOffset s, None) \<and> unat (index_size (index s')) = 12 * Suc j \<and>
                   length (index_mmap (index s')) = 12 * k"
    and "j = k \<Longrightarrow> res = (0, Some EOF)"
proof -
  note sa = store_Append_ok[OF nf, of p "store s"]
  let ?i = "index s"
  have l63: "length (index_mmap ?i) < 2 ^ 63" using len k63 by simp
  {
    assume jk: "j < k"
    then have room: "unat (index_size ?i) + 12 \<le> length (index_mmap ?i)"
      using sz len by simp
    note iw = index_Write_ok[OF room l63, of "ucast (nextOffset s - baseOffset s)"
        "store_size (store s)"]
    have u: "unat (index_size ?i + 12) = 12 * Suc j"
      using unat_plus_small[of "index_size ?i" 12] room l63 sz by simp
    from a show "res = (nextOffset s, None) \<and> unat (index_size (index s')) = 12 * Suc j \<and>
                   length (index_mmap (index s')) = 12 * k"
      using room sz len u by (auto simp: segment_Append_def Let_def m sa iw)
  }
  {
    assume jk: "j = k"
    then have full: "length (index_mmap ?i) < unat (index_size ?i) + 12"
      and le: "unat (index_size ?i) \<le> length (index_mmap ?i)" using sz len by simp_all
    note iw = index_Write_full[OF full le l63, of "ucast (nextOffset s - baseOffset s)"
        "store_size (store s)"]
    from a show "res = (0, Some EOF)"
      by (auto simp: segment_Append_def Let_def m sa iw)
  }
qed

lemma Appends_room:
  "unat (index_size (index s)) = 12 * j \<Longrightarrow> length (index_mmap (index s)) = 12 * k \<Longrightarrow>
   12 * k < (2::nat) ^ 63 \<Longrightarrow> j + length irs \<le> k \<Longrightarrow>
   \<forall>(io, r)\<in>set irs. \<not> io WriteStoreLen \<and> \<not> io WriteStorePayload \<and>
       (\<forall>off. \<exists>p. Marshal cd (r\<lparr>Offset := off\<rparr>) = Inr p) \<Longrightarrow>
   segment_Appends cd irs s = (ress, s') \<Longrightarrow>
   (\<forall>res\<in>set ress. snd res = None) \<and> unat (index_size (index s')) = 12 * (j + length irs) \<and>
   length (index_mmap (index s')) = 12 * k"
proof (induction irs arbitrary: s j ress s')
  case Nil
  then show ?case by simp
next
  case (Cons ir irs)
  obtain io r where ir: "ir = (io, r)" by (cases ir)
  obtain res r' s1 where a: "segment_Append cd io r s = (res, r', s1)"
    by (cases "segment_Append cd io r s") auto
  obtain ress1 s2 where b: "segment_Appends cd irs s1 = (ress1, s2)"
    by (cases "segment_Appends cd irs s1") auto
  from Cons.prems(6) ir a b have eq: "ress = res # ress1" "s' = s2" by auto
  from Cons.prems(5) ir have nf: "\<not> io WriteStoreLen" "\<not> io WriteStorePayload"
    and ser: "\<exists>p. Marshal cd (r\<lparr>Offset := nextOffset s\<rparr>) = Inr p"
    and rest: "\<forall>(io, r)\<in>set irs. \<not> io WriteStoreLen \<and> \<not> io WriteStorePayload \<and>
       (\<forall>off. \<exists>p. Marshal cd (r\<lparr>Offset := off\<rparr>) = Inr p)" by auto
  from ser obtain p where m: "Marshal cd (r\<lparr>Offset := nextOffset s\<rparr>) = Inr p" by blast
  have jk: "j < k" using Cons.prems(4) by simp
  from Append_room(1)[OF Cons.prems(1,2,3) nf m a jk]
  have r1: "res = (nextOffset s, None)" and s1: "unat (index_size (index s1)) = 12 * Suc j"
    and l1: "length (index_mmap (index s1)) = 12 * k" by simp_all
  have "Suc j + length irs \<le> k" using Cons.prems(4) by simp
  from Cons.IH[OF s1 l1 Cons.prems(3) this rest b] r1 eq show ?case by simp
qed

text \<open>
  Claim C4. Let the configuration have \<open>MaxIndexBytes = 12 * k\<close> and let the segment be
  fresh (built by \<open>newSegment\<close> where no file existed or both were empty). When the
  records can be marshalled and the store writes do not fail, the first \<open>k\<close> Appends
  succeed, the segment is then maxed, and the next Append fails with \<open>io.EOF\<close>, the error
  of \<open>index.Write\<close>. On an index whose size is within its mapped region, \<open>index.Write\<close>
  fails exactly when 12 more bytes would pass the end of the region. \<open>IsMaxed\<close> is the
  pure test that the store's size has reached \<open>MaxStoreBytes\<close> or the index's size
  \<open>MaxIndexBytes\<close>.
\<close>

theorem index_capacity:
  assumes fr: "fresh w dir base"
      and cfg: "unat (MaxIndexBytes (Segment c)) = 12 * k"
      and new: "newSegment io0 dir base c w = (Inr s0, w0)"
      and ser: "\<forall>(io, r)\<in>set ((io1, r1) # irs). \<not> io WriteStoreLen \<and> \<not> io WriteStorePayload \<and>
                  (\<forall>off. \<exists>p. Marshal cd (r\<lparr>Offset := off\<rparr>) = Inr p)"
      and len: "length irs = k"
      and run: "segment_Appends cd irs s0 = (ress, s1)"
  shows "(\<forall>res\<in>set ress. snd res = None) \<and> length ress = k \<and>
         fst (segment_Append cd io1 r1 s1) = (0, Some EOF) \<and>
         IsMaxed s1 \<and>
         (\<forall>i off pos. unat (index_size i) \<le> length (index_mmap i) \<and>
              length (index_mmap i) < 2 ^ 63 \<longrightarrow>
              fst (index_Write off pos i) =
                (if length (index_mmap i) < unat (index_size i) + 12 then Some EOF else None)) \<and>
         (\<forall>s. IsMaxed s \<longleftrightarrow>
              unat (MaxStoreBytes (Segment (config s))) \<le> unat (store_size (store s)) \<or>
              unat (MaxIndexBytes (Segment (config s))) \<le> unat (index_size (index s)))"
proof -
  from newSegment_fresh[OF fr new] have h: "holds s0 []" and c0: "config s0 = c" by simp_all
  from h have sz0: "unat (index_size (index s0)) = 12 * 0"
    and l0: "length (index_mmap (index s0)) = 12 * k"
    and k63: "12 * k < (2::nat) ^ 63"
    by (simp_all add: holds_def c0 cfg)
  from ser have ser': "\<forall>(io, r)\<in>set irs. \<not> io WriteStoreLen \<and> \<not> io WriteStorePayload \<and>
                  (\<forall>off. \<exists>p. Marshal cd (r\<lparr>Offset := off\<rparr>) = Inr p)"
    and nf: "\<not> io1 WriteStoreLen" "\<not> io1 WriteStorePayload"
    and s1: "\<exists>p. Marshal cd (r1\<lparr>Offset := nextOffset s1\<rparr>) = Inr p" by auto
  have "0 + length irs \<le> k" using len by simp
  from Appends_room[OF sz0 l0 k63 this ser' run]
  have ok: "\<forall>res\<in>set ress. snd res = None" and sz1: "unat (index_size (index s1)) = 12 * k"
    and l1: "length (index_mmap (index s1)) = 12 * k" using len by simp_all
  from Appends_frame[OF run] have fr1: "config s1 = c" "length ress = k" using c0 len by simp_all
  from s1 obtain p where m: "Marshal cd (r1\<lparr>Offset := nextOffset s1\<rparr>) = Inr p" by blast
  obtain res r' s2 where a: "segment_Append cd io1 r1 s1 = (res, r', s2)"
    by (cases "segment_Append cd io1 r1 s1") auto
  from Append_room(2)[OF sz1 l1 k63 nf m a] a
  have full: "fst (segment_Append cd io1 r1 s1) = (0, Some EOF)" by simp
  have mx: "IsMaxed s1"
    by (simp add: IsMaxed_def word_le_nat_alt fr1 sz1 cfg)
  have wr: "\<forall>i off pos. unat (index_size i) \<le> length (index_mmap i) \<and>
              length (index_mmap i) < 2 ^ 63 \<longrightarrow>
              fst (index_Write off pos i) =
                (if length (index_mmap i) < unat (index_size i) + 12 then Some EOF else None)"
    using index_Write_fails_iff by blast
  have im: "\<forall>s. IsMaxed s \<longleftrightarrow>
              unat (MaxStoreBytes (Segment (config s))) \<le> unat (store_size (store s)) \<or>
              unat (MaxIndexBytes (Segment (config s))) \<le> unat (index_size (index s))"
    by (simp add: IsMaxed_def word_le_nat_alt)
  from ok fr1 full mx wr im show ?thesis by blast
qed

theorem index_capacity_witness:
  "unat (MaxIndexBytes (Segment demo_config)) = 12 * 2 \<and>
   fst (segment_Append plain_codec no_faults demo_record
          (snd (segment_Appends plain_codec
                  [(no_faults, demo_record), (no_faults, demo_record)] demo_segment)))
     = (0, Some EOF) \<and>
   IsMaxed (snd (segment_Appends plain_codec
                  [(no_faults, demo_record), (no_faults, demo_record)] demo_segment))"
proof -
  let ?irs = "[(no_faults, demo_record), (no_faults, demo_record)]"
  let ?run = "segment_Appends plain_codec ?irs demo_segment"
  have cfg: "unat (MaxIndexBytes (Segment demo_config)) = 12 * 2" by (simp add: demo_config_def)
  have ser: "\<forall>(io, r)\<in>set ((no_faults, demo_record) # ?irs).
               \<not> io WriteStoreLen \<and> \<not> io WriteStorePayload \<and>
               (\<forall>off. \<exists>p. Marshal plain_codec (r\<lparr>Offset := off\<rparr>) = Inr p)"
    by (simp add: no_faults_def plain_codec_def demo_record_def)
  have len: "length ?irs = 2" by simp
  have run: "?run = (fst ?run, snd ?run)" by simp
  from index_capacity[OF fresh_empty cfg newSegment_demo ser len run] cfg
  show ?thesis by blast
qed

section \<open>Reading back what was appended\<close>

lemma plain_codec_ok: "codec_ok plain_codec"
  by (auto simp: codec_ok_def plain_codec_def split: if_splits)

lemma demo_run1:
  "segment_Appends plain_codec [(no_faults, demo_record)] demo_segment
     = ([(5, None)], demo_segment1)"
  by (simp add: demo_segment1_def run_defs demo_segment_def)

lemma index_Read_trunc:
  assumes sz: "unat (index_size i) = 12 * n" and npos: "0 < n"
      and arg: "in' \<noteq> - 1 \<and> k = unat in' mod 2 ^ 32 \<or> in' = - 1 \<and> k = (n - 1) mod 2 ^ 32"
  shows "index_Read i in' =
           (if n \<le> k then ((0, 0), Some EOF)
            else case (slice (index_mmap i) (12 * k) (12 * k + 4),
                       slice (index_mmap i) (12 * k + 4) (12 * k + 12)) of
                   (Some ob, Some pb) \<Rightarrow> ((Uint32 ob, Uint64 pb), None)
                 | _ \<Rightarrow> ((0, 0), Some Panic))"
proof -
  have k32: "k < 2 ^ 32" using arg by auto
  have nz: "index_size i \<noteq> 0" using sz npos by (auto simp flip: unat_0_iff)
  have d: "unat (index_size i div 12 - 1) = n - 1"
  proof -
    have "unat (index_size i div 12) = n" by (simp add: unat_div sz)
    moreover from this npos have "index_size i div 12 \<noteq> 0" by (auto simp flip: unat_0_iff)
    ultimately show ?thesis by (simp add: unat_minus_one)
  qed
  define body where "body = (\<lambda>out::uint32.
      if index_size i < (ucast out :: uint64) * 12 + 12 then ((0, 0), Some EOF)
      else case (slice (index_mmap i) (unat ((ucast out :: uint64) * 12))
                   (unat ((ucast out :: uint64) * 12 + 4)),
                 slice (index_mmap i) (unat ((ucast out :: uint64) * 12 + 4))
                   (unat ((ucast out :: uint64) * 12 + 12))) of
             (Some ob, Some pb) \<Rightarrow> ((Uint32 ob, Uint64 pb), None)
           | _ \<Rightarrow> ((0, 0), Some Panic))"
  define out :: uint32 where
    "out = (if in' = - 1 then ucast (index_size i div 12 - 1) else ucast in')"
  have unfold: "index_Read i in' = body out"
    unfolding index_Read_def body_def out_def entWidth_def offWidth_def posWidth_def Let_def
    using nz by (simp cong: option.case_cong)
  have uo: "unat out = k"
  proof (cases "in' = - 1")
    case True
    with arg have "k = (n - 1) mod 2 ^ 32" by simp
    with True show ?thesis by (simp add: out_def unat_ucast32 d)
  next
    case False
    with arg have "k = unat in' mod 2 ^ 32" by simp
    with False show ?thesis by (simp add: out_def unat_ucast32)
  qed
  have bp: "unat ((ucast out :: uint64) * 12) = 12 * k"
  proof -
    have "unat (ucast out :: uint64) * unat (12 :: uint64) < 2 ^ LENGTH(64)"
      using k32 by (simp add: unat_ucast64 uo)
    then have "unat ((ucast out :: uint64) * 12) = unat (ucast out :: uint64) * unat (12 :: uint64)"
      by (simp only: unat_mult_lem)
    then show ?thesis by (simp add: unat_ucast64 uo)
  qed
  have b4: "unat ((ucast out :: uint64) * 12 + 4) = 12 * k + 4"
    using unat_plus_small[of "(ucast out :: uint64) * 12" 4] k32 by (simp add: bp)
  have b12: "unat ((ucast out :: uint64) * 12 + 12) = 12 * k + 12"
    using unat_plus_small[of "(ucast out :: uint64) * 12" 12] k32 by (simp add: bp)
  have chk: "index_size i < (ucast out :: uint64) * 12 + 12 \<longleftrightarrow> n \<le> k"
    by (auto simp add: word_less_nat_alt b12 sz)
  show ?thesis
    unfolding unfold body_def chk bp b4 b12 by (rule refl)
qed

lemma index_Read_holds_trunc:
  assumes sz: "unat (index_size i) = 12 * length ps"
      and ib: "take (12 * length ps) (index_mmap i) = index_bytes ps"
      and len: "12 * length ps \<le> length (index_mmap i)"
      and k: "k < length ps"
      and arg: "in' \<noteq> - 1 \<and> k = unat in' mod 2 ^ 32 \<or>
                in' = - 1 \<and> k = (length ps - 1) mod 2 ^ 32"
  shows "index_Read i in' = ((of_nat k, of_nat (pos_of ps k)), None)"
proof -
  have npos: "0 < length ps" using k by (cases ps) simp_all
  have "12 * k + 12 \<le> length (index_mmap i)" using k len by simp
  with index_Read_trunc[OF sz npos arg] k entry_at[OF ib k] show ?thesis
    by (simp add: slice_def)
qed

lemma holds_Read_trunc:
  assumes h: "holds s ps" and k: "k < length ps"
      and arg: "off - baseOffset s \<noteq> - 1" "k = unat (off - baseOffset s) mod 2 ^ 32"
      and io: "\<not> io FlushStore" "\<not> io ReadStore"
  shows "segment_Read cd io off s =
           ((Some (fst (Unmarshal cd (ps ! k))), snd (Unmarshal cd (ps ! k))),
            s\<lparr>store := flush (store s)\<rparr>)"
proof -
  let ?m = "index_mmap (index s)"
  from h have sz: "unat (index_size (index s)) = 12 * length ps"
    and len: "12 * length ps \<le> length ?m"
    and ib: "take (12 * length ps) ?m = index_bytes ps"
    and c: "store_file (store s) @ store_buf (store s) = concat (map frame ps)"
    and us: "unat (store_size (store s)) = length (concat (map frame ps))"
    by (simp_all add: holds_def)
  have tot: "length (concat (map frame ps)) < 2 ^ 64"
    using unsigned_less[of "store_size (store s)", where ?'a = nat] by (simp add: us[symmetric])
  have ir: "index_Read (index s) (off - baseOffset s) = ((of_nat k, of_nat (pos_of ps k)), None)"
    by (rule index_Read_holds_trunc[OF sz ib len k]) (simp add: arg)
  have sr: "store_Read io (of_nat (pos_of ps k)) (store s) = (Inr (ps ! k), flush (store s))"
    by (rule store_Read_at[OF c k tot io])
  show ?thesis
    by (simp add: segment_Read_def ir sr split: prod.splits)
qed

section \<open>A segment with more than \<open>2 ^ 32\<close> entries\<close>

lemma neg_iff_large:
  assumes "unat (w::uint64) < 2 ^ 63"
  shows "\<not> sint w < 0"
proof -
  from assms have "int (unat w) < int (2 ^ 63)" by (simp only: of_nat_less_iff)
  then have "uint w < 2 ^ 63" by simp
  moreover have "- (2 ^ 63) \<le> uint w" by (rule order_trans[of _ 0]) simp_all
  ultimately have "signed_take_bit 63 (uint w) = uint w"
    by (intro signed_take_bit_int_eq_self) simp_all
  then show ?thesis by (simp add: sint_uint)
qed

lemma newSegment_succeeds:
  assumes nf: "\<forall>sc. \<not> io sc"
      and pos: "\<not> sint (MaxIndexBytes (Segment c)) < 0"
      and np: "snd (index_Read
                  \<lparr>index_file = (dir, base, IndexExt),
                   index_mmap = resize (unat (MaxIndexBytes (Segment c)))
                                  (content_of w (dir, base, IndexExt)),
                   index_size = of_nat (length (content_of w (dir, base, IndexExt)))\<rparr>
                  (- 1)) \<noteq> Some Panic"
  shows "\<exists>s w'. newSegment io dir base c w = (Inr s, w')"
  using assms
  unfolding newSegment_def OpenFile_def newStore_def newIndex_def content_of_def Let_def
  by (auto split: option.splits prod.splits error.splits)

lemma all_const_replicate: "(\<forall>x\<in>set xs. f x = c) \<Longrightarrow> map f xs = replicate (length xs) c"
  by (induction xs) auto

lemma no_faults_all: "\<forall>sc. \<not> no_faults sc"
  by (simp add: no_faults_def)

lemma plain_Marshal:
  "length (Value r) + 8 < 2 ^ 31 \<Longrightarrow>
   Marshal plain_codec (r\<lparr>Offset := off\<rparr>) = Inr (PutUint64 off @ Value r)"
  by (simp add: plain_codec_def)

lemma big0:
  "newSegment no_faults ''log'' 5 big_config empty_world
     = (Inr big_segment0, snd (newSegment no_faults ''log'' 5 big_config empty_world))"
proof -
  have "\<not> sint (MaxIndexBytes (Segment big_config)) < 0" by (simp add: big_config_def)
  moreover have "content_of empty_world (''log'', 5, IndexExt) = []"
    by (simp add: content_of_def empty_world_def)
  ultimately have "\<exists>s w'. newSegment no_faults ''log'' 5 big_config empty_world = (Inr s, w')"
    by (intro newSegment_succeeds no_faults_all) (simp_all add: index_Read_def)
  then show ?thesis by (auto simp: big_segment0_def)
qed

lemma big0_holds:
  "holds big_segment0 [] \<and> baseOffset big_segment0 = 5 \<and> config big_segment0 = big_config \<and>
   store_name (store big_segment0) = (''log'', 5, StoreExt) \<and>
   index_file (index big_segment0) = (''log'', 5, IndexExt)"
  by (rule newSegment_fresh[OF fresh_empty big0])

lemma big_run_length: "length big_run = 4294967296"
  by (simp add: big_run_def)

lemma big_run_ser:
  "\<forall>(io, r)\<in>set big_run. \<not> io WriteStoreLen \<and> \<not> io WriteStorePayload \<and>
       (\<forall>off. \<exists>p. Marshal plain_codec (r\<lparr>Offset := off\<rparr>) = Inr p)"
  by (simp add: big_run_def no_faults_def plain_codec_def demo_record_def first_record_def)

lemma big_run_all:
  "segment_Appends plain_codec big_run big_segment0
     = (fst (segment_Appends plain_codec big_run big_segment0), big_segment)"
  by (simp add: big_segment_def)

lemma big_mmap0: "length (index_mmap (index big_segment0)) = 12 * 4294967297"
  using big0_holds by (simp add: holds_def big_config_def)

lemma big_ok:
  "(\<forall>res\<in>set (fst (segment_Appends plain_codec big_run big_segment0)). snd res = None) \<and>
   unat (index_size (index big_segment)) = 12 * 4294967296 \<and>
   length (index_mmap (index big_segment)) = 12 * 4294967297"
proof -
  have sz0: "unat (index_size (index big_segment0)) = 12 * 0"
    using big0_holds by (simp add: holds_def)
  have k63: "12 * 4294967297 < (2::nat) ^ 63" by simp
  have le: "0 + length big_run \<le> 4294967297" by (simp add: big_run_length)
  from Appends_room[OF sz0 big_mmap0 k63 le big_run_ser big_run_all]
  show ?thesis by (simp add: big_run_length)
qed

lemma big_holds:
  "\<exists>qs. holds big_segment qs \<and> length qs = 4294967296 \<and> (\<forall>p\<in>set qs. length p < 2 ^ 31) \<and>
        qs ! 0 = PutUint64 5 @ [7]"
proof -
  have small: "\<forall>r p. Marshal plain_codec r = Inr p \<longrightarrow> length p < 2 ^ 31"
    using plain_codec_ok by (auto simp: codec_ok_def)
  have h0: "holds big_segment0 []" and b0: "baseOffset big_segment0 = 5"
    using big0_holds by simp_all
  from h0 have n0: "nextOffset big_segment0 = 5" by (simp add: holds_def b0)
  have oks: "\<forall>res\<in>set (fst (segment_Appends plain_codec big_run big_segment0)). snd res = None"
    using big_ok by blast
  have le: "length ([]::byte list list) + length big_run \<le> 2 ^ 32" by (simp add: big_run_length)
  have sm0: "\<forall>p\<in>set ([]::byte list list). length p < 2 ^ 31" by simp
  from Appends_holds[OF small h0 big_run_all oks le sm0]
  obtain qs where h: "holds big_segment qs" and lq: "length qs = length big_run"
    and sq: "\<forall>p\<in>set qs. length p < 2 ^ 31"
    and mq: "\<forall>k<length big_run.
               Marshal plain_codec ((snd (big_run ! k))\<lparr>Offset := 5 + of_nat k\<rparr>) = Inr (qs ! k)"
    by (auto simp: n0)
  have "(0::nat) < length big_run" by (simp add: big_run_length)
  with mq have "Marshal plain_codec ((snd (big_run ! 0))\<lparr>Offset := 5 + of_nat 0\<rparr>) = Inr (qs ! 0)"
    by blast
  then have "qs ! 0 = PutUint64 5 @ [7]"
    by (simp add: big_run_def first_record_def plain_codec_def)
  with h lq sq show ?thesis by (auto simp: big_run_length)
qed

lemma Append_stamps:
  "fst (snd (segment_Append cd io r s)) = r\<lparr>Offset := nextOffset s\<rparr>"
  by (auto simp: segment_Append_def Let_def split: sum.splits prod.splits option.splits)

lemma big_frame:
  "baseOffset big_segment = 5 \<and> config big_segment = big_config \<and>
   store_name (store big_segment) = (''log'', 5, StoreExt) \<and>
   index_file (index big_segment) = (''log'', 5, IndexExt)"
  using Appends_frame[OF big_run_all] big0_holds by simp

lemma big_last:
  "segment_Append plain_codec no_faults demo_record big_segment
     = ((4294967301, None), demo_record\<lparr>Offset := 4294967301\<rparr>, big_segment1) \<and>
   (\<exists>ps. holds big_segment1 ps \<and> length ps = 4294967297 \<and> ps ! 0 = PutUint64 5 @ [7])"
proof -
  let ?a = "segment_Append plain_codec no_faults demo_record big_segment"
  from big_holds obtain qs where h: "holds big_segment qs" and lq: "length qs = 4294967296"
    and sq: "\<forall>p\<in>set qs. length p < 2 ^ 31" and q0: "qs ! 0 = PutUint64 5 @ [7]" by blast
  from h have nx: "nextOffset big_segment = 4294967301"
    using big_frame by (simp add: holds_def lq)
  have m: "Marshal plain_codec (demo_record\<lparr>Offset := nextOffset big_segment\<rparr>)
             = Inr (PutUint64 (nextOffset big_segment) @ [1, 2, 3])"
    by (simp add: plain_codec_def demo_record_def)
  have sz: "unat (index_size (index big_segment)) = 12 * 4294967296"
    and ln: "length (index_mmap (index big_segment)) = 12 * 4294967297"
    using big_ok by simp_all
  have k63: "12 * 4294967297 < (2::nat) ^ 63" by simp
  have nf: "\<not> no_faults WriteStoreLen" "\<not> no_faults WriteStorePayload"
    by (simp_all add: no_faults_def)
  have a: "?a = (fst ?a, fst (snd ?a), big_segment1)" by (simp add: big_segment1_def)
  have jk: "(4294967296::nat) < 4294967297" by simp
  from Append_room(1)[OF sz ln k63 nf m a jk]
  have res: "fst ?a = (4294967301, None)" by (simp add: nx)
  have app: "?a = ((4294967301, None), fst (snd ?a), big_segment1)"
    using a res by simp
  have tot: "length (concat (map frame (qs @ [q]))) < 2 ^ 64"
    if "Marshal plain_codec (demo_record\<lparr>Offset := nextOffset big_segment\<rparr>) = Inr q" for q
  proof -
    from that m have "length q < 2 ^ 31" by auto
    with sq have "\<forall>p\<in>set (qs @ [q]). length p < 2 ^ 31" by simp
    from total_bound[OF this] have "length (concat (map frame (qs @ [q]))) \<le> 4294967297 * (2 ^ 31 + 8)"
      by (simp add: lq)
    then show ?thesis by simp
  qed
  from holds_Append[OF h app tot]
  obtain p where h1: "holds big_segment1 (qs @ [p])" by blast
  have r': "fst (snd ?a) = demo_record\<lparr>Offset := 4294967301\<rparr>"
    using Append_stamps[of plain_codec no_faults demo_record big_segment] by (simp add: nx)
  have "(qs @ [p]) ! 0 = PutUint64 5 @ [7]" using q0 lq by (simp add: nth_append)
  with h1 lq app r' show ?thesis by (intro conjI exI[of _ "qs @ [p]"]) simp_all
qed

lemma big_results:
  "map snd (fst (segment_Appends plain_codec big_run big_segment0)) = replicate 4294967296 None"
proof -
  from big_ok have "\<forall>res\<in>set (fst (segment_Appends plain_codec big_run big_segment0)).
                      snd res = None" by blast
  from all_const_replicate[OF this] Appends_frame[OF big_run_all] show ?thesis
    by (simp add: big_run_length)
qed

lemma big0_fst:
  "fst (newSegment no_faults ''log'' 5 big_config empty_world) = Inr big_segment0"
  using big0 by (metis fst_conv)

lemma big_last_fst:
  "fst (segment_Append plain_codec no_faults demo_record big_segment) = (4294967301, None)"
  using big_last by simp

lemma big1_frame: "baseOffset big_segment1 = 5 \<and>
   store_name (store big_segment1) = (''log'', 5, StoreExt) \<and>
   index_file (index big_segment1) = (''log'', 5, IndexExt)"
proof -
  from big_last have "segment_Append plain_codec no_faults demo_record big_segment
     = ((4294967301, None), demo_record\<lparr>Offset := 4294967301\<rparr>, big_segment1)" by blast
  from Append_frame[OF this] big_frame show ?thesis by simp
qed

section \<open>Append, then Read\<close>




section \<open>Recovery\<close>

lemma Close_succeeds:
  "\<forall>sc. \<not> io sc \<Longrightarrow> \<not> sint (index_size (index s)) < 0 \<Longrightarrow> fst (segment_Close io s w) = None"
  by (simp add: segment_Close_def index_Close_def store_Close_def Let_def)

section \<open>The index of the segments that the code produces\<close>

lemma take_drop_take: "a + b \<le> N \<Longrightarrow> take b (drop a (take N m)) = take b (drop a m)"
  by (simp add: drop_take min_def)

lemma store_Append_name: "store_name (snd (store_Append io p st)) = store_name st"
  by (simp add: store_Append_def Let_def)

lemma dense_store: "store_name st = store_name (store s) \<Longrightarrow> dense dir (s\<lparr>store := st\<rparr>) n = dense dir s n"
  by (simp add: dense_def)

lemma dense_Append:
  assumes d: "dense dir s n" and a: "segment_Append cd io r s = (res, r', s')"
  shows "dense dir s' n \<or> dense dir s' (Suc n)"
proof (cases "Marshal cd (r\<lparr>Offset := nextOffset s\<rparr>)")
  case (Inl e)
  with a have "s' = s" by (simp add: segment_Append_def Let_def)
  with d show ?thesis by simp
next
  case (Inr p)
  let ?i = "index s" and ?m = "index_mmap (index s)"
  from d have sz: "unat (index_size ?i) = 12 * n" and len: "12 * n \<le> length ?m"
    and l63: "length ?m < 2 ^ 63"
    and ent: "\<forall>k<n. take 4 (drop (12 * k) ?m) = PutUint32 (of_nat k)"
    and nx: "nextOffset s = baseOffset s + of_nat n"
    by (simp_all add: dense_def)
  obtain w pos e st1 where sa: "store_Append io p (store s) = ((w, pos, e), st1)"
    by (cases "store_Append io p (store s)") auto
  have nm1: "store_name st1 = store_name (store s)"
    using store_Append_name[of io p "store s"] sa by simp
  show ?thesis
  proof (cases e)
    case (Some err)
    with a Inr sa have "s' = s\<lparr>store := st1\<rparr>" by (simp add: segment_Append_def Let_def)
    with d nm1 show ?thesis by (simp add: dense_store)
  next
    case None
    have off32: "(ucast (nextOffset s - baseOffset s) :: uint32) = of_nat n"
      by (simp add: nx ucast_of_nat32)
    show ?thesis
    proof (cases "unat (index_size ?i) + 12 \<le> length ?m")
      case True
      note iw = index_Write_ok[OF True l63, of "of_nat n" pos]
      from a Inr sa None iw off32
      have s': "s' = s\<lparr>store := st1,
                       index := ?i\<lparr>index_mmap := take (12 * n) ?m @ PutUint32 (of_nat n)
                                      @ PutUint64 pos @ drop (12 * n + 12) ?m,
                                    index_size := index_size ?i + 12\<rparr>,
                       nextOffset := nextOffset s + 1\<rparr>"
        by (simp add: segment_Append_def Let_def sz)
      have u: "unat (index_size ?i + 12) = 12 * Suc n"
        using unat_plus_small[of "index_size ?i" 12] True l63 sz by simp
      have e': "take 4 (drop (12 * k) (take (12 * n) ?m @ PutUint32 (of_nat n)
                                      @ PutUint64 pos @ drop (12 * n + 12) ?m))
                  = PutUint32 (of_nat k)" if "k < Suc n" for k
      proof (cases "k < n")
        case True
        then have "12 * k + 4 \<le> 12 * n" by simp
        with len True ent show ?thesis by (simp add: take_drop_take)
      next
        case False
        with that have "k = n" by simp
        with len show ?thesis by simp
      qed
      have "dense dir s' (Suc n)"
        unfolding dense_def s'
        using d True sz u e' by (simp add: dense_def nm1 nx)
      then show ?thesis ..
    next
      case False
      then have full: "length ?m < unat (index_size ?i) + 12" by simp
      have le: "unat (index_size ?i) \<le> length ?m" using sz len by simp
      note iw = index_Write_full[OF full le l63, of "of_nat n" pos]
      from a Inr sa None iw off32 have "s' = s\<lparr>store := st1\<rparr>"
        by (auto simp: segment_Append_def Let_def)
      with d nm1 show ?thesis by (simp add: dense_def)
    qed
  qed
qed

lemma Read_frame:
  "index (snd (segment_Read cd io off s)) = index s \<and>
   baseOffset (snd (segment_Read cd io off s)) = baseOffset s \<and>
   nextOffset (snd (segment_Read cd io off s)) = nextOffset s \<and>
   store_name (store (snd (segment_Read cd io off s))) = store_name (store s)"
  by (simp add: segment_Read_def store_Read_def flush_def Let_def
      split: prod.splits option.splits sum.splits)

lemma dense_Read:
  assumes d: "dense dir s n" and a: "segment_Read cd io off s = (res, s')"
  shows "dense dir s' n"
proof -
  from a have "s' = snd (segment_Read cd io off s)" by simp
  with d Read_frame[of cd io off s] show ?thesis by (simp add: dense_def)
qed

lemma dense_fresh:
  assumes "fresh w dir base" and "newSegment io dir base c w = (Inr s, w')"
  shows "dense dir s 0"
  using newSegment_fresh[OF assms] by (auto simp: dense_def holds_def)

lemma dense_reopen:
  assumes d: "dense dir s n" and n: "n \<le> 2 ^ 32"
      and cl: "segment_Close io s w = (None, s1, w1)"
      and op: "newSegment io2 dir (baseOffset s) c' w1 = (Inr s2, w2)"
  shows "dense dir s2 n \<and> baseOffset s2 = baseOffset s \<and> nextOffset s2 = nextOffset s \<and>
         index_size (index s2) = index_size (index s) \<and>
         12 * n \<le> length (index_mmap (index s2)) \<and>
         take (12 * n) (index_mmap (index s2)) = take (12 * n) (index_mmap (index s)) \<and>
         store_file (store s2) @ store_buf (store s2)
           = store_file (store s) @ store_buf (store s)"
proof -
  let ?M = "unat (MaxIndexBytes (Segment c'))" and ?m = "index_mmap (index s)"
  from d have sz: "unat (index_size (index s)) = 12 * n" and len: "12 * n \<le> length ?m"
    and ent: "\<forall>k<n. take 4 (drop (12 * k) ?m) = PutUint32 (of_nat k)"
    and nx: "nextOffset s = baseOffset s + of_nat n"
    and nm: "store_name (store s) = (dir, baseOffset s, StoreExt)"
            "index_file (index s) = (dir, baseOffset s, IndexExt)"
    by (simp_all add: dense_def)
  have ne: "store_name (store s) \<noteq> index_file (index s)" by (simp add: nm)
  note f = Close_files[OF cl ne]
  have sb: "content_of w1 (dir, baseOffset s, StoreExt)
              = store_file (store s) @ store_buf (store s)"
    using f by (simp add: content_of_def nm)
  have ibs: "content_of w1 (dir, baseOffset s, IndexExt) = take (12 * n) ?m"
    using f len by (simp add: content_of_def nm sz resize_take)
  have lt: "length (take (12 * n) ?m) = 12 * n" using len by simp
  note r = newSegment_ok[OF op]
  from r have b2: "baseOffset s2 = baseOffset s"
    and nn: "\<not> sint (MaxIndexBytes (Segment c')) < 0" by simp_all
  from r have nx2: "nextOffset s2 = (case index_Read (index s2) (- 1) of
                           ((off, _), None) \<Rightarrow> baseOffset s + ucast off + 1
                         | (_, Some _) \<Rightarrow> baseOffset s)" by simp
  from r have nm2: "store_name (store s2) = (dir, baseOffset s, StoreExt)"
                   "index_file (index s2) = (dir, baseOffset s, IndexExt)" by simp_all
  from r have st2: "store_file (store s2) @ store_buf (store s2)
                      = store_file (store s) @ store_buf (store s)" by (simp add: sb)
  have u: "unat (of_nat (12 * n) :: uint64) = 12 * n" using n by (intro unat_of_nat64) simp
  from r have "index_size (index s2)
                  = of_nat (length (content_of w1 (dir, baseOffset s, IndexExt)))" by simp
  then have is2: "index_size (index s2) = of_nat (12 * n)" by (simp only: ibs lt)
  have usz: "unat (index_size (index s2)) = 12 * n" using u is2 by metis
  from r have mm: "index_mmap (index s2) = resize ?M (take (12 * n) ?m)" by (simp add: ibs)
  have room: "12 * n \<le> ?M"
  proof (rule ccontr)
    assume short: "\<not> ?thesis"
    then have npos: "0 < n" by (cases n) simp_all
    from short have "length (index_mmap (index s2)) < 12 * n" by (simp add: mm)
    note pan = index_Read_panics[OF usz npos n this]
    from r have "snd (index_Read (index s2) (- 1)) \<noteq> Some Panic" by (elim conjE)
    from this pan show False by (rule notE)
  qed
  have ln2: "12 * n \<le> length (index_mmap (index s2))" using room by (simp add: mm)
  have tk: "take (12 * n) (index_mmap (index s2)) = take (12 * n) ?m"
    using take_resize[of "take (12 * n) ?m" ?M] room lt by (simp add: mm)
  have ent2: "take 4 (drop (12 * k) (index_mmap (index s2))) = PutUint32 (of_nat k)"
    if k: "k < n" for k
  proof -
    from k have b: "12 * k + 4 \<le> 12 * n" by simp
    have "take 4 (drop (12 * k) (index_mmap (index s2)))
            = take 4 (drop (12 * k) (take (12 * n) (index_mmap (index s2))))"
      by (rule take_drop_take[OF b, symmetric])
    also have "\<dots> = take 4 (drop (12 * k) (take (12 * n) ?m))" by (simp only: tk)
    also have "\<dots> = take 4 (drop (12 * k) ?m)" by (rule take_drop_take[OF b])
    also have "\<dots> = PutUint32 (of_nat k)" using ent k by simp
    finally show ?thesis .
  qed
  have M63: "?M < 2 ^ 63" by (rule not_neg_bound[OF nn])
  have l63: "length (index_mmap (index s2)) < 2 ^ 63" using M63 by (simp add: mm)
  have nxt: "nextOffset s2 = baseOffset s + of_nat n"
  proof (cases "n = 0")
    case True
    then have "index_size (index s2) = 0" by (simp add: is2)
    then have "index_Read (index s2) (- 1) = ((0, 0), Some EOF)" by (simp add: index_Read_def)
    with True show ?thesis by (simp add: nx2)
  next
    case False
    then have k: "n - 1 < n" by simp
    have "index_Read (index s2) (- 1) =
            ((Uint32 (take 4 (drop (12 * (n - 1)) (index_mmap (index s2)))),
              Uint64 (take 8 (drop (12 * (n - 1) + 4) (index_mmap (index s2))))), None)"
      by (rule index_Read_at[OF usz k n ln2]) simp
    moreover have "Uint32 (take 4 (drop (12 * (n - 1)) (index_mmap (index s2)))) = of_nat (n - 1)"
      by (simp only: ent2[OF k] Uint32_PutUint32')
    moreover have "(ucast (of_nat (n - 1) :: uint32) :: uint64) = of_nat (n - 1)"
      using n False by (intro ucast_of_nat64) simp
    moreover have "(of_nat (n - 1) :: uint64) + 1 = of_nat n"
      using False by (metis Suc_pred' add.commute neq0_conv of_nat_Suc)
    ultimately show ?thesis by (simp add: nx2 add.assoc)
  qed
  have "index_size (index s) = of_nat (unat (index_size (index s)))" by simp
  also have "\<dots> = of_nat (12 * n)" by (simp only: sz)
  finally have is1: "index_size (index s2) = index_size (index s)" by (simp only: is2)
  have "dense dir s2 n"
    unfolding dense_def using usz ln2 l63 ent2 nxt nm2 by (simp add: b2)
  with b2 nxt nx is1 ln2 tk st2 show ?thesis by simp
qed

lemma index_Read_same:
  assumes sz: "unat (index_size i) = 12 * n" and eq: "index_size j = index_size i"
      and li: "12 * n \<le> length (index_mmap i)" and lj: "12 * n \<le> length (index_mmap j)"
      and tk: "take (12 * n) (index_mmap j) = take (12 * n) (index_mmap i)"
  shows "index_Read j in' = index_Read i in'"
proof (cases "n = 0")
  case True
  with sz have "index_size i = 0" by (simp flip: unat_0_iff)
  with eq show ?thesis by (simp add: index_Read_def)
next
  case False
  then have npos: "0 < n" by simp
  define k where "k = (if in' = - 1 then (n - 1) mod 2 ^ 32 else unat in' mod 2 ^ 32)"
  have arg: "in' \<noteq> - 1 \<and> k = unat in' mod 2 ^ 32 \<or> in' = - 1 \<and> k = (n - 1) mod 2 ^ 32"
    by (simp add: k_def)
  have szj: "unat (index_size j) = 12 * n" by (simp only: eq sz)
  note ri = index_Read_trunc[OF sz npos arg] and rj = index_Read_trunc[OF szj npos arg]
  show ?thesis
  proof (cases "n \<le> k")
    case True
    with ri rj show ?thesis by simp
  next
    case False
    then have b4: "12 * k + 4 \<le> 12 * n" and b12: "(12 * k + 4) + 8 \<le> 12 * n" by simp_all
    have e4: "take 4 (drop (12 * k) (index_mmap j)) = take 4 (drop (12 * k) (index_mmap i))"
      using take_drop_take[OF b4, of "index_mmap j"] take_drop_take[OF b4, of "index_mmap i"]
      by (simp only: tk)
    have e8: "take 8 (drop (12 * k + 4) (index_mmap j))
                = take 8 (drop (12 * k + 4) (index_mmap i))"
      using take_drop_take[OF b12, of "index_mmap j"] take_drop_take[OF b12, of "index_mmap i"]
      by (simp only: tk)
    from False li lj have "12 * k + 12 \<le> length (index_mmap i)"
      "12 * k + 12 \<le> length (index_mmap j)" by simp_all
    with ri rj False e4 e8 show ?thesis by (simp add: slice_def)
  qed
qed

lemma store_Read_same:
  "store_file b @ store_buf b = store_file a @ store_buf a \<Longrightarrow>
   fst (store_Read io pos b) = fst (store_Read io pos a)"
  by (simp add: store_Read_def flush_def Let_def)

lemma segment_Read_same:
  assumes ix: "\<forall>in'. index_Read (index b) in' = index_Read (index a) in'"
      and bs: "baseOffset b = baseOffset a"
      and st: "store_file (store b) @ store_buf (store b)
                 = store_file (store a) @ store_buf (store a)"
  shows "fst (segment_Read cd io off b) = fst (segment_Read cd io off a)"
proof -
  obtain ro pos e where ir: "index_Read (index a) (off - baseOffset a) = ((ro, pos), e)"
    by (cases "index_Read (index a) (off - baseOffset a)") auto
  with ix bs have irb: "index_Read (index b) (off - baseOffset b) = ((ro, pos), e)" by simp
  show ?thesis
  proof (cases e)
    case (Some err)
    with ir irb show ?thesis by (simp add: segment_Read_def)
  next
    case None
    obtain ra sa where a: "store_Read io pos (store a) = (ra, sa)"
      by (cases "store_Read io pos (store a)") auto
    obtain rb sb where b: "store_Read io pos (store b) = (rb, sb)"
      by (cases "store_Read io pos (store b)") auto
    from store_Read_same[OF st, of io pos] a b have "rb = ra" by simp
    with None ir irb a b show ?thesis
      by (cases ra) (simp_all add: segment_Read_def split: prod.splits)
  qed
qed

lemma reachable_dense: "reachable dir s \<Longrightarrow> \<exists>n. dense dir s n"
proof (induction rule: reachable.induct)
  case (created w base io c s w')
  from dense_fresh[OF created] show ?case ..
next
  case (appended s cd io r res r' s')
  then obtain n where "dense dir s n" by blast
  from dense_Append[OF this appended.hyps(2)] show ?case by blast
next
  case (was_read s cd io off res s')
  then obtain n where "dense dir s n" by blast
  from dense_Read[OF this was_read.hyps(2)] show ?case ..
next
  case (reopened s io w s1 w1 io2 c s2 w2)
  then obtain n where d: "dense dir s n" by blast
  then have "unat (index_size (index s)) = 12 * n" by (simp add: dense_def)
  with reopened.hyps(2) have "n \<le> 2 ^ 32" by simp
  from dense_reopen[OF d this reopened.hyps(3,4)] show ?case by blast
qed

lemma reachable_reopen:
  assumes re: "reachable dir s" and sz: "unat (index_size (index s)) \<le> 12 * 2 ^ 32"
      and cl: "segment_Close io s w = (None, s1, w1)"
      and op: "newSegment io2 dir (baseOffset s) c' w1 = (Inr s2, w2)"
  shows "nextOffset s2 = nextOffset s \<and>
         (\<forall>cd io3 off. fst (segment_Read cd io3 off s2) = fst (segment_Read cd io3 off s))"
proof -
  from reachable_dense[OF re] obtain n where d: "dense dir s n" ..
  then have u: "unat (index_size (index s)) = 12 * n"
    and li: "12 * n \<le> length (index_mmap (index s))" by (simp_all add: dense_def)
  with sz have n: "n \<le> 2 ^ 32" by simp
  note r = dense_reopen[OF d n cl op]
  from r have eq: "index_size (index s2) = index_size (index s)"
    and lj: "12 * n \<le> length (index_mmap (index s2))"
    and tk: "take (12 * n) (index_mmap (index s2)) = take (12 * n) (index_mmap (index s))"
    and bs: "baseOffset s2 = baseOffset s"
    and st: "store_file (store s2) @ store_buf (store s2)
               = store_file (store s) @ store_buf (store s)"
    and nx: "nextOffset s2 = nextOffset s" by simp_all
  have "\<forall>in'. index_Read (index s2) in' = index_Read (index s) in'"
    using index_Read_same[OF u eq li lj tk] by simp
  from segment_Read_same[OF this bs st] nx show ?thesis by simp
qed

section \<open>Close, then \<open>newSegment\<close> again\<close>



lemma demo_run2:
  "segment_Appends plain_codec [(no_faults, demo_record), (no_faults, demo_record2)] demo_segment
     = ([(5, None), (6, None)], demo_segment2)"
  by (simp add: demo_segment2_def demo_segment1_def demo_record2_def run_defs demo_segment_def)

lemma demo_segment2_index:
  "index demo_segment2 =
     \<lparr>index_file = (''log'', 5, IndexExt),
      index_mmap = [0, 0, 0, 0, 0, 0, 0, 0, 0, 0, 0, 0, 0, 0, 0, 1, 0, 0, 0, 0, 0, 0, 0, 19],
      index_size = 24\<rparr> \<and>
   baseOffset demo_segment2 = 5 \<and> nextOffset demo_segment2 = 7"
  by (simp add: demo_segment2_def demo_segment1_def demo_record2_def run_defs demo_segment_def)

lemma demo_close: "fst (segment_Close no_faults demo_segment2 demo_world) = None"
  by (simp add: segment_Close_def index_Close_def store_Close_def no_faults_def Let_def
      demo_segment2_index)

lemma demo_closed_files:
  "files demo_closed_world (''log'', 5, StoreExt)
     = Some [0, 0, 0, 0, 0, 0, 0, 11, 0, 0, 0, 0, 0, 0, 0, 5, 1, 2, 3,
             0, 0, 0, 0, 0, 0, 0, 10, 0, 0, 0, 0, 0, 0, 0, 6, 9, 8] \<and>
   files demo_closed_world (''log'', 5, IndexExt)
     = Some [0, 0, 0, 0, 0, 0, 0, 0, 0, 0, 0, 0, 0, 0, 0, 1, 0, 0, 0, 0, 0, 0, 0, 19]"
  by (simp add: demo_closed_world_def demo_segment2_def demo_segment1_def demo_record2_def
      demo_world_def demo_segment_def segment_Close_def index_Close_def store_Close_def
      resize_def run_defs)

lemma demo_reopen:
  "\<exists>s. fst (newSegment no_faults ''log'' 5 demo_config demo_closed_world) = Inr s"
  using demo_closed_files
  by (simp add: newSegment_def OpenFile_def newStore_def newIndex_def index_Read_def
      no_faults_def demo_config_def resize_def Let_def slice_def entWidth_def offWidth_def
      posWidth_def)

lemma demo_reachable: "reachable ''log'' demo_segment2"
proof -
  let ?a1 = "segment_Append plain_codec no_faults demo_record demo_segment"
  let ?a2 = "segment_Append plain_codec no_faults demo_record2 demo_segment1"
  have r0: "reachable ''log'' demo_segment"
    by (rule reachable.created[OF fresh_empty newSegment_demo])
  have "?a1 = (fst ?a1, fst (snd ?a1), demo_segment1)" by (simp add: demo_segment1_def)
  from reachable.appended[OF r0 this] have r1: "reachable ''log'' demo_segment1" .
  have "?a2 = (fst ?a2, fst (snd ?a2), demo_segment2)" by (simp add: demo_segment2_def)
  from reachable.appended[OF r1 this] show ?thesis .
qed


section \<open>Reading outside the segment's range\<close>

text \<open>
  Inside the 32-bit window that \<open>index.Read\<close> looks at, a miss is reported: an offset
  \<open>baseOffset + k\<close> at or past \<open>nextOffset\<close>, with \<open>k < 2 ^ 32\<close>, fails with \<open>io.EOF\<close> and
  returns no record.
\<close>

lemma Read_miss_EOF:
  assumes h: "holds s ps" and k: "length ps \<le> k" "k < 2 ^ 32"
  shows "segment_Read cd io (baseOffset s + of_nat k) s = ((None, Some EOF), s)"
proof -
  from h have sz: "unat (index_size (index s)) = 12 * length ps" by (simp add: holds_def)
  from index_Read_miss[OF sz k] show ?thesis by (simp add: segment_Read_def)
qed

text \<open>
  Claim C1 does not hold of the code. On the segment with \<open>baseOffset = 5\<close> that holds
  one record (\<open>nextOffset = 6\<close>), \<open>Read(4)\<close> returns that record: \<open>4 - 5\<close> wraps to the
  pattern of \<open>-1\<close>, which \<open>index.Read\<close> takes as "the last entry". \<open>Read(5 + 2 ^ 32)\<close>
  returns it too: \<open>index.Read\<close> cuts the entry number to 32 bits before it checks it
  against the written size. Both offsets lie outside \<open>[5, 6)\<close>, and the record returned
  carries offset 5. \<open>Read(6)\<close> fails with \<open>io.EOF\<close>, as the claim says.
\<close>

theorem Read_outside_range_returns_record:
  "baseOffset demo_segment1 = 5 \<and> nextOffset demo_segment1 = 6 \<and>
   segment_Read plain_codec no_faults 4 demo_segment1
     = ((Some \<lparr>Value = [1, 2, 3], Offset = 5\<rparr>, None),
        demo_segment1\<lparr>store := flush (store demo_segment1)\<rparr>) \<and>
   segment_Read plain_codec no_faults 4294967301 demo_segment1
     = ((Some \<lparr>Value = [1, 2, 3], Offset = 5\<rparr>, None),
        demo_segment1\<lparr>store := flush (store demo_segment1)\<rparr>) \<and>
   fst (segment_Read plain_codec no_faults 6 demo_segment1) = (None, Some EOF)"
  by (simp add: demo_segment1_def run_defs demo_segment_def)

section \<open>Consecutive offsets over a run\<close>

text \<open>
  Claim C6, as stated, fails where the 64-bit counter wraps: on the segment built for
  base offset \<open>2 ^ 64 - 1\<close> the first Append returns \<open>2 ^ 64 - 1\<close> and leaves
  \<open>nextOffset = 0\<close>, below \<open>baseOffset\<close>, and the second Append returns the smaller
  offset 0.
\<close>

theorem Append_wraps_nextOffset:
  "fst (segment_Appends plain_codec [(no_faults, demo_record), (no_faults, demo_record)]
          edge_segment)
     = [(18446744073709551615, None), (0, None)] \<and>
   nextOffset (snd (segment_Appends plain_codec [(no_faults, demo_record)] edge_segment))
     < baseOffset (snd (segment_Appends plain_codec [(no_faults, demo_record)] edge_segment))"
  by (simp add: run_defs edge_segment_def)

text \<open>
  Claim C6, amended. In any run of Append calls on any segment, each successful call
  returns the current \<open>nextOffset\<close> and adds one to it modulo \<open>2 ^ 64\<close>, and a failed call
  leaves it alone: the offsets returned by the successful calls are \<open>nextOffset\<close>,
  \<open>nextOffset + 1\<close>, ... with no gaps (so they start at \<open>baseOffset\<close> on a fresh segment,
  where \<open>nextOffset = baseOffset\<close>), and \<open>baseOffset\<close> never changes. As long as the
  counter does not pass \<open>2 ^ 64 - 1\<close>, the returned offsets are strictly increasing and
  \<open>nextOffset >= baseOffset\<close> is preserved.
\<close>

theorem Appends_consecutive_offsets:
  assumes "segment_Appends cd irs s = (ress, s')"
  shows "returned_offsets ress =
           map (\<lambda>i. nextOffset s + of_nat i) [0..<length (returned_offsets ress)] \<and>
         nextOffset s' = nextOffset s + of_nat (length (returned_offsets ress)) \<and>
         baseOffset s' = baseOffset s \<and>
         (unat (nextOffset s) + length (returned_offsets ress) \<le> 2 ^ 64 \<longrightarrow>
            sorted_wrt (<) (returned_offsets ress)) \<and>
         (baseOffset s \<le> nextOffset s \<and>
          unat (nextOffset s) + length (returned_offsets ress) < 2 ^ 64 \<longrightarrow>
            baseOffset s' \<le> nextOffset s') \<and>
         (\<forall>io0 dir c w w0. fresh w dir (baseOffset s) \<and>
              newSegment io0 dir (baseOffset s) c w = (Inr s, w0) \<longrightarrow>
              nextOffset s = baseOffset s)"
proof -
  note a = Appends_offsets[OF assms]
  have fr: "nextOffset s = baseOffset s"
    if "fresh w dir (baseOffset s)" "newSegment io0 dir (baseOffset s) c w = (Inr s, w0)"
    for io0 dir c w w0
    using newSegment_fresh[OF that] by (simp add: holds_def)
  let ?m = "length (returned_offsets ress)"
  have inc: "sorted_wrt (<) (returned_offsets ress)" if "unat (nextOffset s) + ?m \<le> 2 ^ 64"
    using offsets_increasing[OF that] a by simp
  have ge: "baseOffset s' \<le> nextOffset s'"
    if "baseOffset s \<le> nextOffset s" "unat (nextOffset s) + ?m < 2 ^ 64"
  proof -
    have "unat (nextOffset s') = unat (nextOffset s) + ?m"
      using a that(2) by (simp add: unat_plus_small)
    then show ?thesis using that(1) a by (simp add: word_le_nat_alt)
  qed
  show ?thesis using a inc ge fr by blast
qed

theorem Appends_consecutive_offsets_witness:
  "fst (segment_Appends plain_codec
          [(no_faults, demo_record), (fail_at WriteStoreLen, demo_record),
           (no_faults, demo_record)] demo_segment)
     = [(5, None), (0, Some (IOError WriteStoreLen)), (6, None)] \<and>
   sorted_wrt (<) [5, 6 :: uint64] \<and>
   nextOffset (snd (segment_Appends plain_codec
          [(no_faults, demo_record), (fail_at WriteStoreLen, demo_record),
           (no_faults, demo_record)] demo_segment)) = 7 \<and>
   baseOffset demo_segment \<le> 7 \<and> nextOffset demo_segment = baseOffset demo_segment"
proof -
  let ?run = "segment_Appends plain_codec
          [(no_faults, demo_record), (fail_at WriteStoreLen, demo_record),
           (no_faults, demo_record)] demo_segment"
  have run: "fst ?run = [(5, None), (0, Some (IOError WriteStoreLen)), (6, None)]"
    by (simp add: run_defs demo_segment_def)
  then have run': "?run = ([(5, None), (0, Some (IOError WriteStoreLen)), (6, None)], snd ?run)"
    by (metis prod.collapse)
  have ro: "returned_offsets [(5, None), (0, Some (IOError WriteStoreLen)), (6::uint64, None)]
              = [5, 6]"
    by (simp add: returned_offsets_def)
  have n: "nextOffset demo_segment = 5" "baseOffset demo_segment = 5"
    by (simp_all add: demo_segment_def)
  from Appends_consecutive_offsets[OF run'] run show ?thesis
    unfolding ro n by simp
qed

end
